theory Spec2Isabelle
  imports Main
begin

section \<open>Control utilities\<close>

text \<open>
  The constants of \<^verbatim>\<open>jshell.c\<close>.  \<^verbatim>\<open>EXIT_FAILURE\<close> is the value of the C library.
\<close>

definition TOKEN_BUFFER_SIZE :: nat where
  "TOKEN_BUFFER_SIZE = 32"

definition MAX_WORD_SIZE :: nat where
  "MAX_WORD_SIZE = 100"

definition JSHELL_EXIT_CODE :: int where
  "JSHELL_EXIT_CODE = 27"

definition JSHELL_SUCCESS :: int where
  "JSHELL_SUCCESS = 0"

definition JSHELL_FAILED :: int where
  "JSHELL_FAILED = 1"

definition EXIT_FAILURE :: int where
  "EXIT_FAILURE = 1"

text \<open>
  \<^verbatim>\<open>raise_error\<close> prints a diagnostic on the error stream and ends the process with
  \<^verbatim>\<open>exit(EXIT_FAILURE)\<close>.  The model returns both as a value: a caller that receives an
  \<open>abort\<close> has not returned.
\<close>

datatype abort = Abort (diagnostic: string) (exit_code: int)

definition raise_error :: "string \<Rightarrow> abort" where
  "raise_error message =
     Abort (''jshell: Error occurred: '' @ message @ [CHR 0x0A]) EXIT_FAILURE"

section \<open>Parsing\<close>

definition is_delimiter :: "char \<Rightarrow> bool" where
  "is_delimiter c =
     (c = CHR '' '' \<or> c = CHR 0x09 \<or> c = CHR 0x0D \<or> c = CHR 0x0A \<or> c = CHR 0x07)"

text \<open>
  \<^verbatim>\<open>split_line\<close> writes into two heap blocks and tests neither index: \<^verbatim>\<open>token\<close>, of
  \<^verbatim>\<open>MAX_WORD_SIZE\<close> bytes, and \<^verbatim>\<open>tokens\<close>, of \<^verbatim>\<open>buffer_size\<close> pointers.  A write past
  the end of a block is undefined behaviour in C; the model stops there and says which
  block was overrun and at which index.  So the scan of a line ends in one of three
  ways: \<^verbatim>\<open>raise_error\<close> was called, a block was overrun, or the loop was left by
  \<^verbatim>\<open>break\<close>.  The allocations themselves are taken to succeed.
\<close>

datatype buffer = Word_buffer | Token_array

datatype stop = Raised abort | Overrun buffer nat

text \<open>
  The state of the scanning loop: the tokens stored so far (\<^verbatim>\<open>current_token\<close> is
  their number), the contents \<^verbatim>\<open>token[0..j)\<close> of the word buffer (\<^verbatim>\<open>j\<close> is their
  number), the flag \<^verbatim>\<open>in_quotes\<close> and \<^verbatim>\<open>buffer_size\<close>.
\<close>

record split_state =
  tokens :: "string list"
  token :: string
  in_quotes :: bool
  buffer_size :: nat

definition init_state :: split_state where
  "init_state =
     \<lparr>tokens = [], token = [], in_quotes = False, buffer_size = TOKEN_BUFFER_SIZE\<rparr>"

text \<open>
  The block at the label \<^verbatim>\<open>End_token\<close>.  First the array of pointers grows by
  \<^verbatim>\<open>TOKEN_BUFFER_SIZE\<close> when \<^verbatim>\<open>current_token >= buffer_size\<close>.  An empty word buffer is
  then skipped.  Otherwise the terminating zero is written at \<^verbatim>\<open>token[j]\<close>, the pointer
  is written at \<^verbatim>\<open>tokens[current_token]\<close> and a fresh word buffer is started.
\<close>

definition grow :: "split_state \<Rightarrow> split_state" where
  "grow s =
     (if buffer_size s \<le> length (tokens s)
      then s\<lparr>buffer_size := buffer_size s + TOKEN_BUFFER_SIZE\<rparr> else s)"

definition end_token :: "split_state \<Rightarrow> stop \<times> split_state + split_state" where
  "end_token s =
     (let g = grow s in
      if token g = [] then Inr g
      else if MAX_WORD_SIZE \<le> length (token g)
      then Inl (Overrun Word_buffer (length (token g)), g)
      else if buffer_size g \<le> length (tokens g)
      then Inl (Overrun Token_array (length (tokens g)), g)
      else Inr (g\<lparr>tokens := tokens g @ [token g], token := []\<rparr>))"

text \<open>
  The loop over \<^verbatim>\<open>line[i]\<close>.  The line is the bytes of the buffer; it ends at the first
  zero byte, or at the end of the list.  The result is \<open>Inl\<close> with the state at that
  moment when the scan stops inside the loop, and \<open>Inr\<close> with the state at the
  \<^verbatim>\<open>break\<close> otherwise.  A character is stored with \<^verbatim>\<open>token[j] = line[i]\<close>.
\<close>

fun split_loop :: "string \<Rightarrow> split_state \<Rightarrow> stop \<times> split_state + split_state" where
  "split_loop [] s = end_token s"
| "split_loop (c # rest) s =
     (if c = CHR 0x00 then end_token s
      else if c = CHR 0x22 then
        (if \<not> in_quotes s then split_loop rest (s\<lparr>in_quotes := True\<rparr>)
         else
           (case rest of
              [] \<Rightarrow> end_token (s\<lparr>in_quotes := False\<rparr>)
            | d # rest' \<Rightarrow>
                if \<not> is_delimiter d \<and> d \<noteq> CHR 0x00
                then Inl (Raised (raise_error ''Expected delimiter after end quote.''), s)
                else if d = CHR 0x00 then end_token (s\<lparr>in_quotes := False\<rparr>)
                else
                  (case end_token (s\<lparr>in_quotes := False\<rparr>) of
                     Inl e \<Rightarrow> Inl e
                   | Inr s' \<Rightarrow> split_loop rest' s')))
      else if \<not> is_delimiter c \<or> in_quotes s then
        (if MAX_WORD_SIZE \<le> length (token s)
         then Inl (Overrun Word_buffer (length (token s)), s)
         else split_loop rest (s\<lparr>token := token s @ [c]\<rparr>))
      else (case end_token s of Inl e \<Rightarrow> Inl e | Inr s' \<Rightarrow> split_loop rest s'))"

text \<open>
  After the loop \<^verbatim>\<open>split_line\<close> calls \<^verbatim>\<open>raise_error\<close> when \<^verbatim>\<open>in_quotes\<close> is set, and
  otherwise writes the terminator \<^verbatim>\<open>tokens[current_token] = NULL\<close> and returns.
\<close>

definition split_line :: "string \<Rightarrow> stop + string list" where
  "split_line line =
     (case split_loop line init_state of
        Inl (e, s) \<Rightarrow> Inl e
      | Inr s \<Rightarrow>
          if in_quotes s then Inl (Raised (raise_error ''Parsing ended unexpectedly.''))
          else if buffer_size s \<le> length (tokens s)
          then Inl (Overrun Token_array (length (tokens s)))
          else Inr (tokens s))"

text \<open>
  Predicates on the states of the scan, used in the statements and proofs below.
  \<open>stops_in I r\<close> says that the state in which the scan stopped satisfies \<open>I\<close>.
\<close>

definition stops_in :: "(split_state \<Rightarrow> bool) \<Rightarrow> stop \<times> split_state + split_state \<Rightarrow> bool" where
  "stops_in I r = (case r of Inl (e, s') \<Rightarrow> I s' | Inr s' \<Rightarrow> I s')"

definition nonempty_tokens :: "split_state \<Rightarrow> bool" where
  "nonempty_tokens s = ([] \<notin> set (tokens s))"


text \<open>Every stored token fits the word buffer, and the pending word has not left it.\<close>

definition words_fit :: "split_state \<Rightarrow> bool" where
  "words_fit s =
     (list_all (\<lambda>t. length t < MAX_WORD_SIZE) (tokens s) \<and> length (token s) \<le> MAX_WORD_SIZE)"

text \<open>
  The array of pointers has room for the tokens stored, and its size is a multiple of
  \<^verbatim>\<open>TOKEN_BUFFER_SIZE\<close> that exceeds their number by at most \<^verbatim>\<open>TOKEN_BUFFER_SIZE\<close>.
\<close>

definition array_fits :: "split_state \<Rightarrow> bool" where
  "array_fits s =
     (length (tokens s) \<le> buffer_size s \<and>
      buffer_size s \<le> length (tokens s) + TOKEN_BUFFER_SIZE \<and>
      0 < buffer_size s \<and> buffer_size s mod TOKEN_BUFFER_SIZE = 0)"

text \<open>A character of a word outside quotes.\<close>

definition plain :: "char \<Rightarrow> bool" where
  "plain c = (\<not> is_delimiter c \<and> c \<noteq> CHR 0x22 \<and> c \<noteq> CHR 0x00)"

section \<open>The operating system as seen by the shell\<close>

text \<open>
  A slot of a \<^verbatim>\<open>char**\<close> array: a pointer to a token, the \<^verbatim>\<open>NULL\<close> that ends the
  array, or what \<^verbatim>\<open>malloc\<close> left there.  \<open>c_array\<close> is the array \<^verbatim>\<open>split_line\<close>
  returns for a list of tokens.
\<close>

datatype slot = Uninit | Null | Tok string

definition c_array :: "string list \<Rightarrow> slot list" where
  "c_array args = map Tok args @ [Null]"

text \<open>
  The tokens a reader of a \<^verbatim>\<open>NULL\<close>-terminated array finds; \<open>None\<close> when it meets a slot
  that was never written, or no \<^verbatim>\<open>NULL\<close>.
\<close>

fun c_tokens :: "slot list \<Rightarrow> string list option" where
  "c_tokens [] = None"
| "c_tokens (Null # arr) = Some []"
| "c_tokens (Tok t # arr) = map_option ((#) t) (c_tokens arr)"
| "c_tokens (Uninit # arr) = None"

definition slot_at :: "slot list \<Rightarrow> nat \<Rightarrow> slot" where
  "slot_at arr i = (if i < length arr then arr ! i else Uninit)"

definition slot_str :: "slot \<Rightarrow> string" where
  "slot_str p = (case p of Tok t \<Rightarrow> t | Null \<Rightarrow> ''(null)'' | Uninit \<Rightarrow> [])"

text \<open>
  What \<^verbatim>\<open>waitpid(pid, &status, WUNTRACED)\<close> reports: the child exited, was killed by a
  signal, or was stopped.
\<close>

datatype wstatus = Exited int | Signaled int | Stopped int

definition WIFEXITED :: "wstatus \<Rightarrow> bool" where
  "WIFEXITED st = (case st of Exited n \<Rightarrow> True | Signaled n \<Rightarrow> False | Stopped n \<Rightarrow> False)"

definition WIFSIGNALED :: "wstatus \<Rightarrow> bool" where
  "WIFSIGNALED st = (case st of Exited n \<Rightarrow> False | Signaled n \<Rightarrow> True | Stopped n \<Rightarrow> False)"

text \<open>
  The calls a process makes, in order.  \<open>Fork pid ops\<close> is a successful
  \<^verbatim>\<open>fork\<close> in the parent, with the calls the child makes on its branch \<^verbatim>\<open>pid == 0\<close>.
\<close>

datatype sysop =
    Stderr string
  | Stdout string
  | Perror string
  | Pipe "(nat \<times> nat) option"
  | Fork nat "sysop list"
  | ForkFailed
  | Close nat
  | Dup2 nat nat
  | Execvp slot "slot list"
  | Exit int
  | Waitpid nat wstatus
  | Chdir string bool

text \<open>
  How a call of the shell ends: it returns a status to \<^verbatim>\<open>jshell_loop\<close>, it ends the
  process through \<^verbatim>\<open>exit\<close>, or it never returns because a child it waits for never
  terminates.
\<close>

datatype outcome = Returns int | Exits int | Blocks

text \<open>
  The answers of the operating system, parameters of the model: the descriptors of
  \<^verbatim>\<open>pipe\<close> (\<open>None\<close> when it fails), the process id of the n-th \<^verbatim>\<open>fork\<close> of a command
  (\<open>None\<close> when it fails), whether \<^verbatim>\<open>execvp\<close> starts the program (\<open>None\<close> when it
  returns -1; otherwise the statuses \<^verbatim>\<open>waitpid\<close> reports for the program, one per
  call, the list ending where the program changes state no more), and whether
  \<^verbatim>\<open>chdir\<close> succeeds.
\<close>

record sys =
  pipe_result :: "(nat \<times> nat) option"
  fork_result :: "nat \<Rightarrow> nat option"
  execvp_result :: "slot \<Rightarrow> slot list \<Rightarrow> wstatus list option"
  chdir_result :: "string \<Rightarrow> bool"

definition STDIN_FILENO :: nat where
  "STDIN_FILENO = 0"

definition STDOUT_FILENO :: nat where
  "STDOUT_FILENO = 1"

text \<open>
  The statuses the parent sees for a child that calls \<^verbatim>\<open>execvp(file, argv)\<close>: when the
  call fails the child reports with \<^verbatim>\<open>perror\<close> and calls \<^verbatim>\<open>exit(EXIT_FAILURE)\<close>.
\<close>

definition child_statuses :: "sys \<Rightarrow> slot \<Rightarrow> slot list \<Rightarrow> wstatus list" where
  "child_statuses y file argv =
     (case execvp_result y file argv of None \<Rightarrow> [Exited EXIT_FAILURE] | Some sts \<Rightarrow> sts)"

text \<open>
  \<^verbatim>\<open>do { waitpid(...) } while (!WIFEXITED(status) && !WIFSIGNALED(status))\<close>: the calls
  made, and whether the loop ends.  When the statuses run out the child never
  terminates and \<^verbatim>\<open>waitpid\<close> does not return.
\<close>

fun wait_child :: "nat \<Rightarrow> wstatus list \<Rightarrow> sysop list \<times> bool" where
  "wait_child pid [] = ([], False)"
| "wait_child pid (st # sts) =
     (if \<not> WIFEXITED st \<and> \<not> WIFSIGNALED st
      then (case wait_child pid sts of (ops, done) \<Rightarrow> (Waitpid pid st # ops, done))
      else ([Waitpid pid st], True))"

text \<open>A status that ends the loop of \<^verbatim>\<open>waitpid\<close>: the child exited or was killed.\<close>

definition terminated :: "wstatus \<Rightarrow> bool" where
  "terminated st = (WIFEXITED st \<or> WIFSIGNALED st)"

text \<open>
  The descriptors a process holds after a sequence of its own calls (the calls of a
  child are the child's).
\<close>

fun fds_after :: "sysop list \<Rightarrow> nat list \<Rightarrow> nat list" where
  "fds_after [] fds = fds"
| "fds_after (Pipe (Some (rd, wr)) # ops) fds = fds_after ops (rd # wr # fds)"
| "fds_after (Close fd # ops) fds = fds_after ops (removeAll fd fds)"
| "fds_after (Dup2 old new # ops) fds = fds_after ops (new # removeAll new fds)"
| "fds_after (x # ops) fds = fds_after ops fds"

definition is_close :: "sysop \<Rightarrow> bool" where
  "is_close x = (case x of Close fd \<Rightarrow> True | _ \<Rightarrow> False)"

definition is_waitpid :: "sysop \<Rightarrow> bool" where
  "is_waitpid x = (case x of Waitpid pid st \<Rightarrow> True | _ \<Rightarrow> False)"

definition is_fork :: "sysop \<Rightarrow> bool" where
  "is_fork x = (case x of Fork pid ops \<Rightarrow> True | _ \<Rightarrow> False)"

section \<open>Commands\<close>

subsection \<open>A single external program\<close>

definition run_child :: "sys \<Rightarrow> slot list \<Rightarrow> sysop list" where
  "run_child y args =
     Execvp (slot_at args 0) args #
     (case execvp_result y (slot_at args 0) args of
        None \<Rightarrow>
          [Perror (''jshell('' @ [CHR 0x22] @ slot_str (slot_at args 0) @ [CHR 0x22] @ '')''),
           Exit EXIT_FAILURE]
      | Some sts \<Rightarrow> [])"

definition jshell_run :: "sys \<Rightarrow> slot list \<Rightarrow> outcome \<times> sysop list" where
  "jshell_run y args =
     (case fork_result y 0 of
        None \<Rightarrow> (Returns JSHELL_SUCCESS, [ForkFailed, Perror ''jshell''])
      | Some pid \<Rightarrow>
          (case wait_child pid (child_statuses y (slot_at args 0) args) of
             (ops, done) \<Rightarrow>
               (if done then Returns JSHELL_SUCCESS else Blocks,
                Fork pid (run_child y args) # ops)))"

subsection \<open>Builtins\<close>

text \<open>
  \<^verbatim>\<open>args[1] == NULL\<close> holds when the command name is the only token.  In
  \<^verbatim>\<open>jshell_cd\<close> the call of \<^verbatim>\<open>raise_error\<close> ends the process.
\<close>

definition jshell_cd :: "sys \<Rightarrow> string list \<Rightarrow> outcome \<times> sysop list" where
  "jshell_cd y args =
     (case drop 1 args of
        [] \<Rightarrow>
          (let a = raise_error ''Argument expected for 'cd' command''
           in (Exits (exit_code a), [Stderr (diagnostic a)]))
      | dir # others \<Rightarrow>
          (if \<not> chdir_result y dir
           then (Returns JSHELL_SUCCESS, [Chdir dir False, Perror ''jshell''])
           else (Returns JSHELL_SUCCESS, [Chdir dir True])))"

definition builtin_names :: "string list" where
  "builtin_names = [''cd'', ''help'', ''exit'']"

definition jshell_help :: "sys \<Rightarrow> string list \<Rightarrow> outcome \<times> sysop list" where
  "jshell_help y args =
     (Returns JSHELL_SUCCESS,
      [Stdout ([CHR 0x0A] @ ''JShell'' @ [CHR 0x0A, CHR 0x0A]),
       Stdout (''--Simple piping can be done through '|' character.'' @ [CHR 0x0A]),
       Stdout (''Usage: '' @ [CHR 0x22] @ ''cmd1 arg0 arg1 ... | cmd2 arg0 arg1 ...'' @ [CHR 0x22]
               @ '' (Support only for piping between 2 programs).'' @ [CHR 0x0A, CHR 0x0A]),
       Stdout (''--Double quotes can be used for arguments containing delimiters.''
               @ [CHR 0x0A, CHR 0x0A]),
       Stdout (''The following commands are built in:'' @ [CHR 0x0A])]
      @ map (\<lambda>n. Stdout (''> '' @ n @ [CHR 0x0A])) builtin_names
      @ [Stdout [CHR 0x0A]])"

definition jshell_exit :: "sys \<Rightarrow> string list \<Rightarrow> outcome \<times> sysop list" where
  "jshell_exit y args = (Returns JSHELL_EXIT_CODE, [])"

definition builtins :: "(string \<times> (sys \<Rightarrow> string list \<Rightarrow> outcome \<times> sysop list)) list" where
  "builtins = [(''cd'', jshell_cd), (''help'', jshell_help), (''exit'', jshell_exit)]"

subsection \<open>Pipelines\<close>

text \<open>
  The branch \<^verbatim>\<open>pid == 0\<close> of a child of \<^verbatim>\<open>jshell_exec_pipe\<close>: it closes the end of the
  channel it does not use, installs the other end as its standard stream and closes it.
\<close>

definition pipe_child :: "sys \<Rightarrow> nat \<Rightarrow> nat \<Rightarrow> nat \<Rightarrow> slot list \<Rightarrow> sysop list" where
  "pipe_child y unused used std args =
     [Close unused, Dup2 used std, Close used, Execvp (slot_at args 0) args] @
     (case execvp_result y (slot_at args 0) args of
        None \<Rightarrow>
          [Perror (''Failed execution of '' @ [CHR 0x27] @ slot_str (slot_at args 0) @ [CHR 0x27]),
           Exit EXIT_FAILURE]
      | Some sts \<Rightarrow> [])"

definition jshell_exec_pipe :: "sys \<Rightarrow> slot list \<Rightarrow> slot list \<Rightarrow> outcome \<times> sysop list" where
  "jshell_exec_pipe y left_args right_args =
     (case pipe_result y of
        None \<Rightarrow>
          (Returns JSHELL_FAILED,
           [Pipe None, Stderr (''jshell: Pipe could not be initialized.'' @ [CHR 0x0A])])
      | Some (rd, wr) \<Rightarrow>
          (case fork_result y 0 of
             None \<Rightarrow>
               (Returns JSHELL_FAILED,
                [Pipe (Some (rd, wr)), ForkFailed, Stderr (''jshell: Fork failed.'' @ [CHR 0x0A])])
           | Some p1 \<Rightarrow>
               (case fork_result y 1 of
                  None \<Rightarrow>
                    (Returns JSHELL_FAILED,
                     [Pipe (Some (rd, wr)), Fork p1 (pipe_child y rd wr STDOUT_FILENO left_args),
                      ForkFailed, Stderr (''jshell: Fork failed.'' @ [CHR 0x0A])])
                | Some p2 \<Rightarrow>
                    (let spawned =
                       [Pipe (Some (rd, wr)), Fork p1 (pipe_child y rd wr STDOUT_FILENO left_args),
                        Fork p2 (pipe_child y wr rd STDIN_FILENO right_args)]
                     in case wait_child p1 (child_statuses y (slot_at left_args 0) left_args) of
                          (ops1, done1) \<Rightarrow>
                            if \<not> done1 then (Blocks, spawned @ ops1)
                            else
                              (case wait_child p2
                                      (child_statuses y (slot_at right_args 0) right_args) of
                                 (ops2, done2) \<Rightarrow>
                                   (if done2 then Returns JSHELL_SUCCESS else Blocks,
                                    spawned @ ops1 @ ops2))))))"

text \<open>\<^verbatim>\<open>args[i][0] == JSHELL_PIPE[0]\<close>: the first character of the token is the pipe character.\<close>

definition starts_pipe :: "string \<Rightarrow> bool" where
  "starts_pipe a = (case a of [] \<Rightarrow> False | c # cs \<Rightarrow> c = CHR ''|'')"

text \<open>
  The first loop of \<^verbatim>\<open>jshell_pipe\<close>, over the tokens from index \<open>i\<close> on: the counter at
  the end of the loop and \<^verbatim>\<open>sizeof_left\<close>.
\<close>

fun scan_pipe :: "string list \<Rightarrow> nat \<Rightarrow> nat \<Rightarrow> nat \<times> nat" where
  "scan_pipe [] i sizeof_left = (i, sizeof_left)"
| "scan_pipe (a # rest) i sizeof_left =
     scan_pipe rest (Suc i) (if starts_pipe a then i + 1 else sizeof_left)"

text \<open>The second loop: every token that starts with the pipe character is skipped.\<close>

fun copy_args ::
  "string list \<Rightarrow> nat \<Rightarrow> nat \<Rightarrow> nat \<Rightarrow> slot list \<Rightarrow> slot list \<Rightarrow> slot list \<times> slot list" where
  "copy_args [] i j sizeof_left left_args right_args = (left_args, right_args)"
| "copy_args (a # rest) i j sizeof_left left_args right_args =
     (if starts_pipe a then copy_args rest (Suc i) j sizeof_left left_args right_args
      else if i < sizeof_left
      then copy_args rest (Suc i) j sizeof_left (left_args[i := Tok a]) right_args
      else copy_args rest (Suc i) (Suc j) sizeof_left left_args (right_args[j := Tok a]))"

text \<open>
  What the second loop leaves in the slot of the left array that belongs to a token
  before the boundary: the token, or nothing when the token begins with the pipe
  character and is skipped.
\<close>

definition left_slot :: "string \<Rightarrow> slot" where
  "left_slot a = (if starts_pipe a then Uninit else Tok a)"

text \<open>
  The two arrays \<^verbatim>\<open>jshell_pipe\<close> builds, or \<open>None\<close> where it returns 1 at its guard.
  \<^verbatim>\<open>sizeof_left\<close> never exceeds the counter, so the subtraction is that of the code.
\<close>

definition pipe_split :: "string list \<Rightarrow> (slot list \<times> slot list) option" where
  "pipe_split args =
     (case scan_pipe (drop 1 args) 1 0 of
        (i, sizeof_left) \<Rightarrow>
          (let sizeof_right = i - sizeof_left + 1 in
           if sizeof_left = 0 \<or> sizeof_right = 0 then None
           else
             (case copy_args args 0 0 sizeof_left
                     (replicate sizeof_left Uninit) (replicate sizeof_right Uninit) of
                (left_args, right_args) \<Rightarrow>
                  Some (left_args[sizeof_left - 1 := Null],
                        right_args[sizeof_right - 1 := Null]))))"

definition jshell_pipe :: "sys \<Rightarrow> string list \<Rightarrow> outcome \<times> sysop list" where
  "jshell_pipe y args =
     (case pipe_split args of
        None \<Rightarrow> (Returns 1, [])
      | Some (left_args, right_args) \<Rightarrow> jshell_exec_pipe y left_args right_args)"

subsection \<open>Dispatch\<close>

text \<open>
  The first loop of \<^verbatim>\<open>jshell_exec\<close> over the tokens from index \<open>i\<close> on; \<open>None\<close> when no
  token starts with the pipe character.
\<close>

fun exec_scan :: "sys \<Rightarrow> string list \<Rightarrow> string list \<Rightarrow> nat \<Rightarrow> (outcome \<times> sysop list) option" where
  "exec_scan y args [] i = None"
| "exec_scan y args (a # rest) i =
     (if starts_pipe a then
        (if length a > 1 \<or> i = 0
         then Some (Returns JSHELL_FAILED, [Stderr (''jshell: Syntax error for '|'.'' @ [CHR 0x0A])])
         else if rest = []
         then Some (Returns JSHELL_FAILED,
                    [Stderr (''jshell: Right command expected for piping.'' @ [CHR 0x0A])])
         else Some (jshell_pipe y args))
      else exec_scan y args rest (Suc i))"

definition jshell_exec :: "sys \<Rightarrow> string list \<Rightarrow> outcome \<times> sysop list" where
  "jshell_exec y args =
     (case args of
        [] \<Rightarrow> (Returns JSHELL_SUCCESS, [])
      | a0 # others \<Rightarrow>
          (case exec_scan y args args 0 of
             Some r \<Rightarrow> r
           | None \<Rightarrow>
               (case find (\<lambda>b. a0 = fst b) builtins of
                  Some b \<Rightarrow> snd b y args
                | None \<Rightarrow> jshell_run y (c_array args))))"

text \<open>
  The body of \<^verbatim>\<open>jshell_loop\<close> for one line read: an abort inside \<^verbatim>\<open>split_line\<close> ends
  the process before \<^verbatim>\<open>jshell_exec\<close> is reached.  \<open>Inl\<close> says that \<^verbatim>\<open>split_line\<close> has
  overrun a block; nothing is said about the process from there on.
\<close>

definition jshell_step :: "sys \<Rightarrow> string \<Rightarrow> buffer \<times> nat + outcome \<times> sysop list" where
  "jshell_step y line =
     (case split_line line of
        Inl (Raised a) \<Rightarrow> Inr (Exits (exit_code a), [Stderr (diagnostic a)])
      | Inl (Overrun b n) \<Rightarrow> Inl (b, n)
      | Inr args \<Rightarrow> Inr (jshell_exec y args))"

section \<open>The scanning loop of the tokenizer\<close>

subsection \<open>The steps of the scanning loop\<close>

lemma is_delimiter_not_quote: "is_delimiter d \<Longrightarrow> d \<noteq> CHR 0x22"
  by (auto simp: is_delimiter_def)

lemma is_delimiter_not_nul: "is_delimiter d \<Longrightarrow> d \<noteq> CHR 0x00"
  by (auto simp: is_delimiter_def)

lemma split_loop_nul: "split_loop (CHR 0x00 # rest) s = end_token s"
  by simp

lemma split_loop_open:
  "\<not> in_quotes s \<Longrightarrow> split_loop (CHR 0x22 # rest) s = split_loop rest (s\<lparr>in_quotes := True\<rparr>)"
  by simp

lemma split_loop_close_end:
  "in_quotes s \<Longrightarrow> split_loop [CHR 0x22] s = end_token (s\<lparr>in_quotes := False\<rparr>)"
  by simp

lemma split_loop_close_bad:
  "in_quotes s \<Longrightarrow> \<not> is_delimiter d \<Longrightarrow> d \<noteq> CHR 0x00 \<Longrightarrow>
   split_loop (CHR 0x22 # d # rest) s =
     Inl (Raised (raise_error ''Expected delimiter after end quote.''), s)"
  by simp

lemma split_loop_close_nul:
  "in_quotes s \<Longrightarrow>
   split_loop (CHR 0x22 # CHR 0x00 # rest) s = end_token (s\<lparr>in_quotes := False\<rparr>)"
  by (simp add: is_delimiter_def)

lemma split_loop_close_delim:
  "in_quotes s \<Longrightarrow> is_delimiter d \<Longrightarrow>
   split_loop (CHR 0x22 # d # rest) s =
     (case end_token (s\<lparr>in_quotes := False\<rparr>) of
        Inl e \<Rightarrow> Inl e
      | Inr s' \<Rightarrow> split_loop rest s')"
  by (simp add: is_delimiter_not_nul)

lemma split_loop_full:
  "c \<noteq> CHR 0x00 \<Longrightarrow> c \<noteq> CHR 0x22 \<Longrightarrow> \<not> is_delimiter c \<or> in_quotes s \<Longrightarrow>
   MAX_WORD_SIZE \<le> length (token s) \<Longrightarrow>
   split_loop (c # rest) s = Inl (Overrun Word_buffer (length (token s)), s)"
  by simp

lemma split_loop_char:
  "c \<noteq> CHR 0x00 \<Longrightarrow> c \<noteq> CHR 0x22 \<Longrightarrow> \<not> is_delimiter c \<or> in_quotes s \<Longrightarrow>
   length (token s) < MAX_WORD_SIZE \<Longrightarrow>
   split_loop (c # rest) s = split_loop rest (s\<lparr>token := token s @ [c]\<rparr>)"
  by simp

lemma split_loop_delim:
  "is_delimiter c \<Longrightarrow> \<not> in_quotes s \<Longrightarrow>
   split_loop (c # rest) s =
     (case end_token s of Inl e \<Rightarrow> Inl e | Inr s' \<Rightarrow> split_loop rest s')"
  by (simp add: is_delimiter_not_nul is_delimiter_not_quote)

lemma split_loop_induct
  [case_names Nil Nul Open Close_end Close_bad Close_nul Close_delim Full Char Delim]:
  assumes "\<And>s. P [] s"
    and "\<And>rest s. P (CHR 0x00 # rest) s"
    and "\<And>rest s. \<not> in_quotes s \<Longrightarrow> P rest (s\<lparr>in_quotes := True\<rparr>) \<Longrightarrow> P (CHR 0x22 # rest) s"
    and "\<And>s. in_quotes s \<Longrightarrow> P [CHR 0x22] s"
    and "\<And>d rest s. in_quotes s \<Longrightarrow> \<not> is_delimiter d \<Longrightarrow> d \<noteq> CHR 0x00 \<Longrightarrow>
           P (CHR 0x22 # d # rest) s"
    and "\<And>rest s. in_quotes s \<Longrightarrow> P (CHR 0x22 # CHR 0x00 # rest) s"
    and "\<And>d rest s. in_quotes s \<Longrightarrow> is_delimiter d \<Longrightarrow>
           (\<And>s'. end_token (s\<lparr>in_quotes := False\<rparr>) = Inr s' \<Longrightarrow> P rest s') \<Longrightarrow>
           P (CHR 0x22 # d # rest) s"
    and "\<And>c rest s. c \<noteq> CHR 0x00 \<Longrightarrow> c \<noteq> CHR 0x22 \<Longrightarrow> \<not> is_delimiter c \<or> in_quotes s \<Longrightarrow>
           MAX_WORD_SIZE \<le> length (token s) \<Longrightarrow> P (c # rest) s"
    and "\<And>c rest s. c \<noteq> CHR 0x00 \<Longrightarrow> c \<noteq> CHR 0x22 \<Longrightarrow> \<not> is_delimiter c \<or> in_quotes s \<Longrightarrow>
           length (token s) < MAX_WORD_SIZE \<Longrightarrow>
           P rest (s\<lparr>token := token s @ [c]\<rparr>) \<Longrightarrow> P (c # rest) s"
    and "\<And>c rest s. is_delimiter c \<Longrightarrow> \<not> in_quotes s \<Longrightarrow>
           (\<And>s'. end_token s = Inr s' \<Longrightarrow> P rest s') \<Longrightarrow> P (c # rest) s"
  shows "P line s"
proof (induction line s rule: split_loop.induct)
  case (1 s)
  show ?case by (rule assms(1))
next
  case (2 c rest s)
  show ?case
  proof (cases "c = CHR 0x00")
    case True
    then show ?thesis using assms(2) by simp
  next
    case nz: False
    show ?thesis
    proof (cases "c = CHR 0x22")
      case q: True
      show ?thesis
      proof (cases "in_quotes s")
        case False
        then show ?thesis using 2(1) nz q assms(3) by simp
      next
        case inq: True
        show ?thesis
        proof (cases rest)
          case Nil
          then show ?thesis using q inq assms(4) by simp
        next
          case (Cons d rest')
          show ?thesis
          proof (cases "is_delimiter d")
            case True
            then have dz: "d \<noteq> CHR 0x00" by (rule is_delimiter_not_nul)
            have "P rest' s'" if "end_token (s\<lparr>in_quotes := False\<rparr>) = Inr s'" for s'
              using 2(2)[OF nz q _ Cons _ dz that] inq True by simp
            then show ?thesis
              using assms(7)[OF inq True] Cons q by simp
          next
            case nd: False
            show ?thesis
            proof (cases "d = CHR 0x00")
              case True
              then show ?thesis using Cons q inq assms(6) by simp
            next
              case False
              then show ?thesis using Cons q inq nd assms(5) by simp
            qed
          qed
        qed
      qed
    next
      case nq: False
      show ?thesis
      proof (cases "\<not> is_delimiter c \<or> in_quotes s")
        case True
        show ?thesis
        proof (cases "MAX_WORD_SIZE \<le> length (token s)")
          case full: True
          then show ?thesis using assms(8)[OF nz nq True] by blast
        next
          case False
          then show ?thesis
            using 2(3)[OF nz nq True False] assms(9)[OF nz nq True] by simp
        qed
      next
        case False
        then show ?thesis using 2(4)[OF nz nq False] assms(10) by blast
      qed
    qed
  qed
qed

declare split_loop.simps(2) [simp del]

subsection \<open>Invariants of the scan\<close>

lemma grow_fields:
  "in_quotes (grow s) = in_quotes s"
  "token (grow s) = token s"
  "tokens (grow s) = tokens s"
  by (simp_all add: grow_def)

lemma end_token_cases:
  obtains (skip) "token s = []" "end_token s = Inr (grow s)"
  | (word) "token s \<noteq> []" "MAX_WORD_SIZE \<le> length (token s)"
      "end_token s = Inl (Overrun Word_buffer (length (token s)), grow s)"
  | (array) "token s \<noteq> []" "length (token s) < MAX_WORD_SIZE"
      "buffer_size (grow s) \<le> length (tokens s)"
      "end_token s = Inl (Overrun Token_array (length (tokens s)), grow s)"
  | (store) "token s \<noteq> []" "length (token s) < MAX_WORD_SIZE"
      "length (tokens s) < buffer_size (grow s)"
      "end_token s = Inr ((grow s)\<lparr>tokens := tokens s @ [token s], token := []\<rparr>)"
  by (cases "token s = []"; cases "MAX_WORD_SIZE \<le> length (token s)";
      cases "buffer_size (grow s) \<le> length (tokens s)")
    (auto simp: end_token_def Let_def grow_fields)

lemma end_token_Inr:
  assumes "end_token s = Inr s'"
  shows "in_quotes s' = in_quotes s" "token s' = []"
    "tokens s' = (if token s = [] then tokens s else tokens s @ [token s])"
  using assms by (cases s rule: end_token_cases; auto simp: grow_fields)+

lemma split_loop_invariant:
  assumes fin: "\<And>s. I s \<Longrightarrow> stops_in I (end_token s)"
    and flag: "\<And>s b. I s \<Longrightarrow> I (s\<lparr>in_quotes := b\<rparr>)"
    and put: "\<And>s c. I s \<Longrightarrow> c \<noteq> CHR 0x22 \<Longrightarrow> c \<noteq> CHR 0x00 \<Longrightarrow>
                length (token s) < MAX_WORD_SIZE \<Longrightarrow> I (s\<lparr>token := token s @ [c]\<rparr>)"
  shows "I s \<Longrightarrow> stops_in I (split_loop line s)"
proof (induction line s rule: split_loop_induct)
  case (Nil s)
  then show ?case by (simp add: fin)
next
  case (Nul rest s)
  then show ?case by (simp add: split_loop_nul fin)
next
  case (Open rest s)
  then show ?case by (simp add: split_loop_open flag)
next
  case (Close_end s)
  then show ?case by (simp add: split_loop_close_end fin flag)
next
  case (Close_bad d rest s)
  then show ?case by (simp add: stops_in_def split_loop_close_bad)
next
  case (Close_nul rest s)
  then show ?case by (simp add: split_loop_close_nul fin flag)
next
  case (Close_delim d rest s)
  have "stops_in I (end_token (s\<lparr>in_quotes := False\<rparr>))"
    using Close_delim.prems by (intro fin flag)
  then show ?case
    using Close_delim
    by (cases "end_token (s\<lparr>in_quotes := False\<rparr>)")
      (auto simp: split_loop_close_delim stops_in_def)
next
  case (Full c rest s)
  then show ?case by (simp add: stops_in_def split_loop_full)
next
  case (Char c rest s)
  then show ?case by (simp add: split_loop_char put)
next
  case (Delim c rest s)
  have "stops_in I (end_token s)"
    using Delim.prems by (rule fin)
  then show ?case
    using Delim
    by (cases "end_token s") (auto simp: split_loop_delim stops_in_def)
qed

lemma end_token_stops:
  assumes "I (grow s)"
    and "token s \<noteq> [] \<Longrightarrow> length (token s) < MAX_WORD_SIZE \<Longrightarrow>
         length (tokens s) < buffer_size (grow s) \<Longrightarrow>
         I ((grow s)\<lparr>tokens := tokens s @ [token s], token := []\<rparr>)"
  shows "stops_in I (end_token s)"
  using assms by (cases s rule: end_token_cases) (auto simp: stops_in_def)

lemma split_loop_nonempty: "nonempty_tokens s \<Longrightarrow> stops_in nonempty_tokens (split_loop line s)"
proof (rule split_loop_invariant)
  fix s assume "nonempty_tokens s"
  then show "stops_in nonempty_tokens (end_token s)"
    by (intro end_token_stops) (auto simp: nonempty_tokens_def grow_fields)
qed (simp_all add: nonempty_tokens_def)


lemma split_loop_words_fit: "words_fit s \<Longrightarrow> stops_in words_fit (split_loop line s)"
proof (rule split_loop_invariant)
  fix s assume "words_fit s"
  then show "stops_in words_fit (end_token s)"
    by (intro end_token_stops) (auto simp: words_fit_def grow_fields)
qed (simp_all add: words_fit_def)

lemma TOKEN_BUFFER_SIZE_pos: "0 < TOKEN_BUFFER_SIZE"
  by (simp add: TOKEN_BUFFER_SIZE_def)

lemma array_fits_grow:
  "array_fits s \<Longrightarrow> array_fits (grow s) \<and> length (tokens s) < buffer_size (grow s)"
  using TOKEN_BUFFER_SIZE_pos by (auto simp: array_fits_def grow_def)

lemma split_loop_array_fits: "array_fits s \<Longrightarrow> stops_in array_fits (split_loop line s)"
proof (rule split_loop_invariant)
  fix s assume a: "array_fits s"
  show "stops_in array_fits (end_token s)"
  proof (rule end_token_stops)
    show "array_fits (grow s)" using array_fits_grow[OF a] by simp
    assume "length (tokens s) < buffer_size (grow s)"
    then show "array_fits ((grow s)\<lparr>tokens := tokens s @ [token s], token := []\<rparr>)"
      using array_fits_grow[OF a] by (auto simp: array_fits_def grow_fields)
  qed
qed (simp_all add: array_fits_def)

subsection \<open>How the scan stops\<close>

text \<open>
  Inside the loop the pointer of a token is written after the growth test, so only the
  word buffer can be overrun there, at the index \<^verbatim>\<open>MAX_WORD_SIZE\<close>; and the only call of
  \<^verbatim>\<open>raise_error\<close> is the one for a missing delimiter.
\<close>

lemma end_token_Inl:
  assumes "array_fits s" "length (token s) \<le> MAX_WORD_SIZE" "end_token s = Inl (e, s')"
  shows "e = Overrun Word_buffer MAX_WORD_SIZE \<and> length (token s') = MAX_WORD_SIZE"
  using assms array_fits_grow[OF assms(1)]
  by (cases s rule: end_token_cases) (auto simp: grow_fields)

lemma split_loop_Inl:
  "array_fits s \<Longrightarrow> length (token s) \<le> MAX_WORD_SIZE \<Longrightarrow> split_loop line s = Inl (e, s') \<Longrightarrow>
   e = Raised (raise_error ''Expected delimiter after end quote.'') \<or>
   e = Overrun Word_buffer MAX_WORD_SIZE \<and> length (token s') = MAX_WORD_SIZE"
proof (induction line s rule: split_loop_induct)
  case (Nil s)
  then show ?case using end_token_Inl[of s e s'] by simp
next
  case (Nul rest s)
  then show ?case using end_token_Inl[of s e s'] by (simp add: split_loop_nul)
next
  case (Open rest s)
  then show ?case by (simp add: split_loop_open array_fits_def)
next
  case (Close_end s)
  then show ?case
    using end_token_Inl[of "s\<lparr>in_quotes := False\<rparr>" e s']
    by (simp add: split_loop_close_end array_fits_def)
next
  case (Close_bad d rest s)
  then show ?case by (simp add: split_loop_close_bad)
next
  case (Close_nul rest s)
  then show ?case
    using end_token_Inl[of "s\<lparr>in_quotes := False\<rparr>" e s']
    by (simp add: split_loop_close_nul array_fits_def)
next
  case (Close_delim d rest s)
  let ?s0 = "s\<lparr>in_quotes := False\<rparr>"
  have a0: "array_fits ?s0" "length (token ?s0) \<le> MAX_WORD_SIZE"
    using Close_delim.prems by (simp_all add: array_fits_def)
  show ?case
  proof (cases "end_token ?s0")
    case (Inl p)
    then show ?thesis
      using Close_delim.prems(3) Close_delim.hyps end_token_Inl[OF a0, of e s']
      by (simp add: split_loop_close_delim)
  next
    case (Inr s1)
    have "stops_in array_fits (end_token ?s0)"
      using a0(1) array_fits_grow[OF a0(1)]
      by (intro end_token_stops) (auto simp: array_fits_def grow_fields)
    then have "array_fits s1" using Inr by (simp add: stops_in_def)
    moreover have "token s1 = []" using end_token_Inr(2)[OF Inr] .
    ultimately show ?thesis
      using Close_delim.IH[OF Inr] Close_delim.prems(3) Close_delim.hyps Inr
      by (simp add: split_loop_close_delim)
  qed
next
  case (Full c rest s)
  then show ?case by (simp add: split_loop_full)
next
  case (Char c rest s)
  then show ?case by (simp add: split_loop_char array_fits_def)
next
  case (Delim c rest s)
  show ?case
  proof (cases "end_token s")
    case (Inl p)
    then show ?thesis
      using Delim.prems Delim.hyps end_token_Inl[of s e s']
      by (simp add: split_loop_delim)
  next
    case (Inr s1)
    have "stops_in array_fits (end_token s)"
      using Delim.prems(1) array_fits_grow[OF Delim.prems(1)]
      by (intro end_token_stops) (auto simp: array_fits_def grow_fields)
    then have "array_fits s1" using Inr by (simp add: stops_in_def)
    moreover have "token s1 = []" using end_token_Inr(2)[OF Inr] .
    ultimately show ?thesis
      using Delim.IH[OF Inr] Delim.prems(3) Delim.hyps Inr
      by (simp add: split_loop_delim)
  qed
qed

lemma split_loop_stop_fields: "split_loop a s = Inr sa \<Longrightarrow> token sa = []"
proof (induction a s rule: split_loop_induct)
  case (Nil s)
  then show ?case using end_token_Inr(2) by simp
next
  case (Nul rest s)
  then show ?case using end_token_Inr(2) by (simp add: split_loop_nul)
next
  case (Open rest s)
  then show ?case by (simp add: split_loop_open)
next
  case (Close_end s)
  then show ?case using end_token_Inr(2) by (simp add: split_loop_close_end)
next
  case (Close_bad d rest s)
  then show ?case by (simp add: split_loop_close_bad)
next
  case (Close_nul rest s)
  then show ?case using end_token_Inr(2) by (simp add: split_loop_close_nul)
next
  case (Close_delim d rest s)
  then show ?case
    by (cases "end_token (s\<lparr>in_quotes := False\<rparr>)") (simp_all add: split_loop_close_delim)
next
  case (Full c rest s)
  then show ?case by (simp add: split_loop_full)
next
  case (Char c rest s)
  then show ?case by (simp add: split_loop_char)
next
  case (Delim c rest s)
  then show ?case by (cases "end_token s") (simp_all add: split_loop_delim)
qed

lemma init_state_fits: "array_fits init_state" "words_fit init_state" "length (token init_state) \<le> MAX_WORD_SIZE"
  by (simp_all add: array_fits_def words_fit_def init_state_def TOKEN_BUFFER_SIZE_def)

subsection \<open>Quotes\<close>

lemma split_loop_parity:
  "split_loop line s = Inr s' \<Longrightarrow>
   in_quotes s' = (in_quotes s \<noteq> odd (count_list (takeWhile (\<lambda>c. c \<noteq> CHR 0x00) line) (CHR 0x22)))"
proof (induction line s rule: split_loop_induct)
  case (Nil s)
  then show ?case using end_token_Inr(1) by simp
next
  case (Nul rest s)
  then show ?case using end_token_Inr(1) by (simp add: split_loop_nul)
next
  case (Open rest s)
  then show ?case by (simp add: split_loop_open)
next
  case (Close_end s)
  then show ?case
    using end_token_Inr(1)[of "s\<lparr>in_quotes := False\<rparr>" s'] by (simp add: split_loop_close_end)
next
  case (Close_bad d rest s)
  then show ?case by (simp add: split_loop_close_bad)
next
  case (Close_nul rest s)
  then show ?case
    using end_token_Inr(1)[of "s\<lparr>in_quotes := False\<rparr>" s'] by (simp add: split_loop_close_nul)
next
  case (Close_delim d rest s)
  show ?case
  proof (cases "end_token (s\<lparr>in_quotes := False\<rparr>)")
    case (Inl p)
    then show ?thesis using Close_delim by (simp add: split_loop_close_delim)
  next
    case (Inr s1)
    then show ?thesis
      using Close_delim.IH[OF Inr] Close_delim.prems Close_delim.hyps end_token_Inr(1)[OF Inr]
      by (simp add: split_loop_close_delim is_delimiter_not_nul is_delimiter_not_quote)
  qed
next
  case (Full c rest s)
  then show ?case by (simp add: split_loop_full)
next
  case (Char c rest s)
  then show ?case by (simp add: split_loop_char)
next
  case (Delim c rest s)
  show ?case
  proof (cases "end_token s")
    case (Inl p)
    then show ?thesis using Delim by (simp add: split_loop_delim)
  next
    case (Inr s1)
    then show ?thesis
      using Delim.IH[OF Inr] Delim.prems Delim.hyps end_token_Inr(1)[OF Inr]
      by (simp add: split_loop_delim is_delimiter_not_nul is_delimiter_not_quote)
  qed
qed





subsection \<open>Runs of characters and token boundaries\<close>

lemma grow_roomy: "length (tokens s) < buffer_size s \<Longrightarrow> grow s = s"
  by (simp add: grow_def)

lemma end_token_empty:
  "token s = [] \<Longrightarrow> length (tokens s) < buffer_size s \<Longrightarrow> end_token s = Inr s"
  by (simp add: end_token_def grow_roomy)

lemma end_token_store:
  "token s \<noteq> [] \<Longrightarrow> length (token s) < MAX_WORD_SIZE \<Longrightarrow> length (tokens s) < buffer_size s \<Longrightarrow>
   end_token s = Inr (s\<lparr>tokens := tokens s @ [token s], token := []\<rparr>)"
  by (simp add: end_token_def grow_roomy)

lemma split_loop_delims:
  "list_all is_delimiter ds \<Longrightarrow> \<not> in_quotes s \<Longrightarrow> token s = [] \<Longrightarrow>
   length (tokens s) < buffer_size s \<Longrightarrow> split_loop (ds @ rest) s = split_loop rest s"
  by (induction ds) (simp_all add: split_loop_delim end_token_empty)

lemma split_loop_quoted:
  "in_quotes s \<Longrightarrow> CHR 0x22 \<notin> set q \<Longrightarrow> CHR 0x00 \<notin> set q \<Longrightarrow>
   length (token s) + length q \<le> MAX_WORD_SIZE \<Longrightarrow>
   split_loop (q @ rest) s = split_loop rest (s\<lparr>token := token s @ q\<rparr>)"
proof (induction q arbitrary: s)
  case Nil
  then show ?case by simp
next
  case (Cons c q)
  have c: "c \<noteq> CHR 0x00" "c \<noteq> CHR 0x22" "length (token s) < MAX_WORD_SIZE"
    using Cons.prems by auto
  have "split_loop ((c # q) @ rest) s = split_loop (q @ rest) (s\<lparr>token := token s @ [c]\<rparr>)"
    using Cons.prems(1) c by (simp add: split_loop_char)
  also have "\<dots> = split_loop rest (s\<lparr>token := token s @ [c], token := (token s @ [c]) @ q\<rparr>)"
    using Cons.IH[of "s\<lparr>token := token s @ [c]\<rparr>"] Cons.prems by simp
  finally show ?case by simp
qed

lemma split_loop_word:
  "\<not> in_quotes s \<Longrightarrow> list_all plain u \<Longrightarrow> length (token s) + length u \<le> MAX_WORD_SIZE \<Longrightarrow>
   split_loop (u @ rest) s = split_loop rest (s\<lparr>token := token s @ u\<rparr>)"
proof (induction u arbitrary: s)
  case Nil
  then show ?case by simp
next
  case (Cons c u)
  have c: "c \<noteq> CHR 0x00" "c \<noteq> CHR 0x22" "\<not> is_delimiter c" "length (token s) < MAX_WORD_SIZE"
    using Cons.prems by (auto simp: plain_def)
  have "split_loop ((c # u) @ rest) s = split_loop (u @ rest) (s\<lparr>token := token s @ [c]\<rparr>)"
    using c by (simp add: split_loop_char)
  also have "\<dots> = split_loop rest (s\<lparr>token := token s @ [c], token := (token s @ [c]) @ u\<rparr>)"
    using Cons.IH[of "s\<lparr>token := token s @ [c]\<rparr>"] Cons.prems by simp
  finally show ?case by simp
qed

text \<open>
  A part of a line that the scan leaves outside quotes, followed by a delimiter: the
  scan of the rest starts in the state in which the scan of the part alone ends.
\<close>

lemma split_loop_append:
  "split_loop a s = Inr sa \<Longrightarrow> \<not> in_quotes sa \<Longrightarrow> CHR 0x00 \<notin> set a \<Longrightarrow> is_delimiter d \<Longrightarrow>
   split_loop (a @ d # b) s = split_loop b sa"
proof (induction a s rule: split_loop_induct)
  case (Nil s)
  then show ?case using end_token_Inr(1)[of s sa] by (simp add: split_loop_delim)
next
  case (Nul rest s)
  then show ?case by simp
next
  case (Open rest s)
  then show ?case by (simp add: split_loop_open)
next
  case (Close_end s)
  then show ?case by (simp add: split_loop_close_end split_loop_close_delim)
next
  case (Close_bad d rest s)
  then show ?case by (simp add: split_loop_close_bad)
next
  case (Close_nul rest s)
  then show ?case by simp
next
  case (Close_delim d' rest s)
  then show ?case
    by (cases "end_token (s\<lparr>in_quotes := False\<rparr>)") (simp_all add: split_loop_close_delim)
next
  case (Full c rest s)
  then show ?case by (simp add: split_loop_full)
next
  case (Char c rest s)
  then show ?case by (simp add: split_loop_char)
next
  case (Delim c rest s)
  then show ?case by (cases "end_token s") (simp_all add: split_loop_delim)
qed

subsection \<open>Lines\<close>

lemma split_line_Inr_iff:
  "split_line line = Inr toks \<longleftrightarrow>
   (\<exists>s. split_loop line init_state = Inr s \<and> \<not> in_quotes s \<and>
        length (tokens s) < buffer_size s \<and> tokens s = toks)"
  by (auto simp: split_line_def split: sum.splits)

lemma split_line_InrD:
  assumes "split_line a = Inr ta"
  obtains sa where "split_loop a init_state = Inr sa" "\<not> in_quotes sa" "token sa = []"
    "length (tokens sa) < buffer_size sa" "tokens sa = ta"
  using assms split_loop_stop_fields unfolding split_line_Inr_iff by blast

lemma split_line_invariant:
  assumes "\<And>s. I s \<Longrightarrow> stops_in I (split_loop line s)" "I init_state" "split_line line = Inr toks"
  shows "\<exists>s. I s \<and> tokens s = toks"
proof -
  obtain s where s: "split_loop line init_state = Inr s" "tokens s = toks"
    using assms(3) unfolding split_line_Inr_iff by blast
  then have "I s" using assms(1)[OF assms(2)] by (simp add: stops_in_def)
  then show ?thesis using s(2) by blast
qed

lemma split_line_delims: "list_all is_delimiter ds \<Longrightarrow> split_line ds = Inr []"
  using split_loop_delims[of ds init_state "[]"]
  by (simp add: split_line_def init_state_def end_token_def grow_def TOKEN_BUFFER_SIZE_def)

lemma split_line_collapse:
  assumes "split_line a = Inr ta" "CHR 0x00 \<notin> set a" "is_delimiter d" "list_all is_delimiter ds"
  shows "split_line (a @ d # ds @ b) = split_line (a @ d # b)"
proof -
  obtain sa where sa: "split_loop a init_state = Inr sa" "\<not> in_quotes sa" "token sa = []"
    "length (tokens sa) < buffer_size sa"
    using assms(1) by (rule split_line_InrD)
  have "split_loop (a @ d # ds @ b) init_state = split_loop (ds @ b) sa"
    using sa assms by (intro split_loop_append)
  also have "\<dots> = split_loop b sa"
    using sa assms(4) by (intro split_loop_delims)
  also have "\<dots> = split_loop (a @ d # b) init_state"
    using sa assms by (intro split_loop_append[symmetric])
  finally show ?thesis by (simp add: split_line_def)
qed


lemma end_token_word:
  assumes "length (tokens s) < buffer_size s" "length t < MAX_WORD_SIZE"
  shows "end_token (s\<lparr>token := t\<rparr>) =
     Inr (s\<lparr>tokens := tokens s @ (if t = [] then [] else [t]), token := []\<rparr>)"
  using assms by (cases "t = []") (simp_all add: end_token_empty end_token_store)

lemma split_loop_open_quote:
  assumes "\<not> in_quotes s" "token s = []" "length (tokens s) < buffer_size s"
    and u: "list_all plain u"
    and w: "CHR 0x22 \<notin> set w" "CHR 0x00 \<notin> set w"
    and len: "length (u @ w) < MAX_WORD_SIZE"
  shows "\<exists>s'. split_loop (u @ CHR 0x22 # w) s = Inr s' \<and> in_quotes s'"
proof -
  have "split_loop (u @ CHR 0x22 # w) s = split_loop (CHR 0x22 # w) (s\<lparr>token := token s @ u\<rparr>)"
    using assms by (intro split_loop_word) simp_all
  also have "\<dots> = split_loop (w @ []) (s\<lparr>token := u, in_quotes := True\<rparr>)"
    using assms by (simp add: split_loop_open)
  also have "\<dots> = split_loop []
      (s\<lparr>token := u, in_quotes := True, token := token (s\<lparr>token := u, in_quotes := True\<rparr>) @ w\<rparr>)"
    using assms by (intro split_loop_quoted) simp_all
  also have "\<dots> = end_token (s\<lparr>in_quotes := True, token := u @ w\<rparr>)"
    by simp
  also have "\<dots> = Inr (s\<lparr>in_quotes := True,
      tokens := tokens (s\<lparr>in_quotes := True\<rparr>) @ (if u @ w = [] then [] else [u @ w]), token := []\<rparr>)"
    using end_token_word[of "s\<lparr>in_quotes := True\<rparr>" "u @ w"] assms by simp
  finally show ?thesis by simp
qed

lemma split_line_long_word:
  assumes "list_all plain u" "MAX_WORD_SIZE \<le> length u"
  shows "split_line u = Inl (Overrun Word_buffer MAX_WORD_SIZE)"
proof -
  let ?v = "take MAX_WORD_SIZE u"
  let ?r = "drop MAX_WORD_SIZE u"
  let ?s = "init_state\<lparr>token := ?v\<rparr>"
  have v: "list_all plain ?v" "length ?v = MAX_WORD_SIZE"
    using assms by (simp_all add: list_all_iff) (meson in_set_takeD)
  have "split_loop (?v @ ?r) init_state = split_loop ?r (init_state\<lparr>token := token init_state @ ?v\<rparr>)"
    using v by (intro split_loop_word) (simp_all add: init_state_def)
  then have 1: "split_loop u init_state = split_loop ?r ?s"
    by (simp add: init_state_def)
  have 2: "split_loop ?r ?s = Inl (Overrun Word_buffer MAX_WORD_SIZE, grow ?s) \<or>
      split_loop ?r ?s = Inl (Overrun Word_buffer MAX_WORD_SIZE, ?s)"
  proof (cases ?r)
    case Nil
    have "MAX_WORD_SIZE \<le> length (token ?s)" "token ?s \<noteq> []"
      using v(2) by (auto simp: MAX_WORD_SIZE_def)
    then have "end_token ?s = Inl (Overrun Word_buffer (length (token ?s)), grow ?s)"
      by (cases ?s rule: end_token_cases) auto
    then show ?thesis using Nil v(2) by simp
  next
    case (Cons c r)
    then have "c \<in> set u" by (metis in_set_dropD list.set_intros(1))
    then have "plain c" using assms(1) by (simp add: list_all_iff)
    then have "split_loop (c # r) ?s = Inl (Overrun Word_buffer (length (token ?s)), ?s)"
      using v(2) by (intro split_loop_full) (simp_all add: plain_def)
    then show ?thesis using Cons v(2) by simp
  qed
  show ?thesis
    using 1 2 by (auto simp: split_line_def)
qed

lemma array_fits_exact:
  assumes "array_fits s" "length (tokens s) < buffer_size s"
    "Suc (length (tokens s)) mod TOKEN_BUFFER_SIZE = 0"
  shows "buffer_size s = Suc (length (tokens s))"
proof -
  have "buffer_size s mod 32 = 0" "Suc (length (tokens s)) mod 32 = 0"
    "buffer_size s \<le> length (tokens s) + 32"
    using assms by (simp_all add: array_fits_def TOKEN_BUFFER_SIZE_def)
  then show ?thesis using assms(2) by presburger
qed

lemma split_line_full_array:
  assumes a: "split_line a = Inr ta" "CHR 0x00 \<notin> set a" "is_delimiter d"
    and u: "list_all plain u" "u \<noteq> []" "length u < MAX_WORD_SIZE"
    and n: "Suc (length ta) mod TOKEN_BUFFER_SIZE = 0"
  shows "split_line (a @ d # u) = Inl (Overrun Token_array (Suc (length ta)))"
proof -
  obtain sa where sa: "split_loop a init_state = Inr sa" "\<not> in_quotes sa" "token sa = []"
    "length (tokens sa) < buffer_size sa" "tokens sa = ta"
    using a(1) by (rule split_line_InrD)
  have "stops_in array_fits (split_loop a init_state)"
    using init_state_fits(1) by (rule split_loop_array_fits)
  then have "array_fits sa" using sa(1) by (simp add: stops_in_def)
  then have bs: "buffer_size sa = Suc (length ta)"
    using array_fits_exact[of sa] sa n by simp
  have "split_loop (a @ d # u) init_state = split_loop (u @ []) sa"
    using sa a by (simp add: split_loop_append)
  also have "\<dots> = split_loop [] (sa\<lparr>token := token sa @ u\<rparr>)"
    using sa u by (intro split_loop_word) simp_all
  also have "\<dots> = Inr (sa\<lparr>tokens := tokens sa @ (if u = [] then [] else [u]), token := []\<rparr>)"
    using end_token_word[of sa u] sa u by simp
  finally show ?thesis
    using sa u bs by (simp add: split_line_def)
qed

section \<open>Tokens, quotes and the two buffers\<close>

text \<open>
  Claim C9.  Every token \<^verbatim>\<open>split_line\<close> returns is a non-empty string; a line that holds
  only delimiter characters yields the empty sequence; and after a part of the line
  that tokenizes on its own (so that the scan is outside quotes and no block has been
  overrun), a delimiter followed by any run of further delimiters yields what the
  single delimiter yields.  A line on which the scan overruns a block returns no
  tokens: there \<^verbatim>\<open>split_line\<close> is \<open>Inl (Overrun b n)\<close>.
\<close>

theorem split_line_tokens_nonempty:
  "(split_line line = Inr toks \<longrightarrow> [] \<notin> set toks) \<and>
   (list_all is_delimiter line \<longrightarrow> split_line line = Inr []) \<and>
   (split_line a = Inr ta \<and> CHR 0x00 \<notin> set a \<and> is_delimiter d \<and> list_all is_delimiter ds \<longrightarrow>
      split_line (a @ d # ds @ b) = split_line (a @ d # b))"
proof (intro conjI impI)
  assume r: "split_line line = Inr toks"
  have "nonempty_tokens init_state"
    by (simp add: nonempty_tokens_def init_state_def)
  then have "\<exists>s. nonempty_tokens s \<and> tokens s = toks"
    using split_line_invariant[OF split_loop_nonempty _ r] by blast
  then show "[] \<notin> set toks"
    by (auto simp: nonempty_tokens_def)
next
  assume "list_all is_delimiter line"
  then show "split_line line = Inr []" by (rule split_line_delims)
next
  assume "split_line a = Inr ta \<and> CHR 0x00 \<notin> set a \<and> is_delimiter d \<and> list_all is_delimiter ds"
  then show "split_line (a @ d # ds @ b) = split_line (a @ d # b)"
    by (simp add: split_line_collapse)
qed

theorem split_line_tokens_nonempty_witness:
  "split_line ''ls  -l'' = Inr [''ls'', ''-l''] \<and> [] \<notin> set [''ls'', ''-l''] \<and>
   list_all is_delimiter [CHR '' '', CHR 0x09, CHR '' ''] \<and>
   split_line [CHR '' '', CHR 0x09, CHR '' ''] = Inr [] \<and>
   split_line ''ls'' = Inr [''ls''] \<and>
   split_line (''ls'' @ CHR '' '' # [CHR 0x09, CHR '' ''] @ ''-l'') = split_line (''ls'' @ CHR '' '' # ''-l'')"
proof -
  have h1: "split_line ''ls  -l'' = Inr [''ls'', ''-l'']" by code_simp
  have h2: "list_all is_delimiter [CHR '' '', CHR 0x09, CHR '' '']" by (simp add: is_delimiter_def)
  have h3: "split_line ''ls'' = Inr [''ls'']" by code_simp
  have h4: "CHR 0x00 \<notin> set ''ls''" by simp
  have h5: "is_delimiter (CHR '' '')" by (simp add: is_delimiter_def)
  have h6: "list_all is_delimiter [CHR 0x09, CHR '' '']" by (simp add: is_delimiter_def)
  note t1 = split_line_tokens_nonempty[of "''ls  -l''" "[''ls'', ''-l'']" "''ls''" "[''ls'']" "CHR '' ''"
      "[CHR 0x09, CHR '' '']" "''-l''"]
  note t2 = split_line_tokens_nonempty[of "[CHR '' '', CHR 0x09, CHR '' '']" "[]" "''ls''" "[''ls'']" "CHR '' ''"
      "[CHR 0x09, CHR '' '']" "''-l''"]
  show ?thesis
    using t1 t2 h1 h2 h3 h4 h5 h6 by blast
qed




text \<open>
  Claim C6.  When the loop is left at the end of the line with \<^verbatim>\<open>in_quotes\<close> set,
  \<^verbatim>\<open>split_line\<close> returns no tokens: it calls \<^verbatim>\<open>raise_error\<close>, which prints the diagnostic
  and ends the process with \<^verbatim>\<open>EXIT_FAILURE\<close>, so that the loop body never reaches
  \<^verbatim>\<open>jshell_exec\<close>.  A line with an odd number of quotes never tokenizes: the scan ends
  with one of the two calls of \<^verbatim>\<open>raise_error\<close>, or earlier with an overrun of the word
  buffer.  A quote opened after the characters \<open>u\<close> of a word and never closed, the
  word and the quoted part \<open>w\<close> together shorter than \<^verbatim>\<open>MAX_WORD_SIZE\<close>, at the start
  of the line or after a part that tokenizes and a delimiter, gives the abort for the
  unexpected end.
\<close>
theorem split_line_unterminated_quote:
  "(split_loop line init_state = Inr s \<and> in_quotes s \<longrightarrow>
      split_line line =
        Inl (Raised (Abort (''jshell: Error occurred: Parsing ended unexpectedly.'' @ [CHR 0x0A])
                           EXIT_FAILURE)) \<and>
      jshell_step y line =
        Inr (Exits EXIT_FAILURE,
             [Stderr (''jshell: Error occurred: Parsing ended unexpectedly.'' @ [CHR 0x0A])])) \<and>
   (odd (count_list (takeWhile (\<lambda>c. c \<noteq> CHR 0x00) line) (CHR 0x22)) \<longrightarrow>
      split_line line =
        Inl (Raised (Abort (''jshell: Error occurred: Parsing ended unexpectedly.'' @ [CHR 0x0A])
                           EXIT_FAILURE)) \<or>
      split_line line =
        Inl (Raised (Abort (''jshell: Error occurred: Expected delimiter after end quote.''
                            @ [CHR 0x0A]) EXIT_FAILURE)) \<or>
      split_line line = Inl (Overrun Word_buffer MAX_WORD_SIZE)) \<and>
   (list_all plain u \<and> CHR 0x22 \<notin> set w \<and> CHR 0x00 \<notin> set w \<and> length (u @ w) < MAX_WORD_SIZE \<longrightarrow>
      split_line (u @ CHR 0x22 # w) =
        Inl (Raised (Abort (''jshell: Error occurred: Parsing ended unexpectedly.'' @ [CHR 0x0A])
                           EXIT_FAILURE)) \<and>
      (split_line a = Inr ta \<and> CHR 0x00 \<notin> set a \<and> is_delimiter d \<longrightarrow>
         split_line (a @ d # u @ CHR 0x22 # w) =
           Inl (Raised (Abort (''jshell: Error occurred: Parsing ended unexpectedly.''
                               @ [CHR 0x0A]) EXIT_FAILURE))))"
proof (intro conjI impI)
  assume h: "split_loop line init_state = Inr s \<and> in_quotes s"
  then show r: "split_line line =
        Inl (Raised (Abort (''jshell: Error occurred: Parsing ended unexpectedly.'' @ [CHR 0x0A])
                           EXIT_FAILURE))"
    by (simp add: split_line_def raise_error_def)
  show "jshell_step y line =
        Inr (Exits EXIT_FAILURE,
             [Stderr (''jshell: Error occurred: Parsing ended unexpectedly.'' @ [CHR 0x0A])])"
    by (simp add: jshell_step_def r)
next
  assume odd: "odd (count_list (takeWhile (\<lambda>c. c \<noteq> CHR 0x00) line) (CHR 0x22))"
  show "split_line line =
        Inl (Raised (Abort (''jshell: Error occurred: Parsing ended unexpectedly.'' @ [CHR 0x0A])
                           EXIT_FAILURE)) \<or>
      split_line line =
        Inl (Raised (Abort (''jshell: Error occurred: Expected delimiter after end quote.''
                            @ [CHR 0x0A]) EXIT_FAILURE)) \<or>
      split_line line = Inl (Overrun Word_buffer MAX_WORD_SIZE)"
  proof (cases "split_loop line init_state")
    case (Inl p)
    obtain e s' where p: "p = (e, s')" by (cases p)
    have "e = Raised (raise_error ''Expected delimiter after end quote.'') \<or>
        e = Overrun Word_buffer MAX_WORD_SIZE"
      using split_loop_Inl[OF init_state_fits(1,3), of line e s'] Inl p by blast
    then show ?thesis using Inl p by (auto simp: split_line_def raise_error_def)
  next
    case (Inr s')
    then have "in_quotes s'"
      using split_loop_parity[OF Inr] odd by (simp add: init_state_def)
    then show ?thesis using Inr by (simp add: split_line_def raise_error_def)
  qed
next
  assume h: "list_all plain u \<and> CHR 0x22 \<notin> set w \<and> CHR 0x00 \<notin> set w \<and> length (u @ w) < MAX_WORD_SIZE"
  have "\<exists>s'. split_loop (u @ CHR 0x22 # w) init_state = Inr s' \<and> in_quotes s'"
    using h by (intro split_loop_open_quote) (simp_all add: init_state_def TOKEN_BUFFER_SIZE_def)
  then show "split_line (u @ CHR 0x22 # w) =
        Inl (Raised (Abort (''jshell: Error occurred: Parsing ended unexpectedly.'' @ [CHR 0x0A])
                           EXIT_FAILURE))"
    by (auto simp: split_line_def raise_error_def)
  assume a: "split_line a = Inr ta \<and> CHR 0x00 \<notin> set a \<and> is_delimiter d"
  then obtain sa where sa: "split_loop a init_state = Inr sa" "\<not> in_quotes sa" "token sa = []"
    "length (tokens sa) < buffer_size sa"
    using split_line_InrD[of a ta] by blast
  have "split_loop (a @ d # u @ CHR 0x22 # w) init_state = split_loop (u @ CHR 0x22 # w) sa"
    using sa a by (intro split_loop_append) simp_all
  moreover have "\<exists>s'. split_loop (u @ CHR 0x22 # w) sa = Inr s' \<and> in_quotes s'"
    using h sa by (intro split_loop_open_quote) simp_all
  ultimately show "split_line (a @ d # u @ CHR 0x22 # w) =
           Inl (Raised (Abort (''jshell: Error occurred: Parsing ended unexpectedly.''
                               @ [CHR 0x0A]) EXIT_FAILURE))"
    by (auto simp: split_line_def raise_error_def)
qed

theorem split_line_unterminated_quote_witness:
  "split_loop (''foo '' @ CHR 0x22 # ''bar'') init_state =
     Inr \<lparr>tokens = [''foo'', ''bar''], token = [], in_quotes = True, buffer_size = 32\<rparr> \<and>
   split_line (''foo '' @ CHR 0x22 # ''bar'') =
     Inl (Raised (Abort (''jshell: Error occurred: Parsing ended unexpectedly.'' @ [CHR 0x0A])
                        EXIT_FAILURE)) \<and>
   jshell_step \<lparr>pipe_result = None, fork_result = (\<lambda>n. None), execvp_result = (\<lambda>f a. None),
       chdir_result = (\<lambda>d. False)\<rparr> (''foo '' @ CHR 0x22 # ''bar'') =
     Inr (Exits EXIT_FAILURE,
          [Stderr (''jshell: Error occurred: Parsing ended unexpectedly.'' @ [CHR 0x0A])]) \<and>
   odd (count_list (takeWhile (\<lambda>c. c \<noteq> CHR 0x00) (''foo '' @ CHR 0x22 # ''bar'')) (CHR 0x22)) \<and>
   split_line (''x'' @ CHR 0x22 # ''a b'') =
     Inl (Raised (Abort (''jshell: Error occurred: Parsing ended unexpectedly.'' @ [CHR 0x0A])
                        EXIT_FAILURE)) \<and>
   split_line ''foo'' = Inr [''foo''] \<and>
   split_line (''foo'' @ CHR '' '' # ''x'' @ CHR 0x22 # ''a b'') =
     Inl (Raised (Abort (''jshell: Error occurred: Parsing ended unexpectedly.'' @ [CHR 0x0A])
                        EXIT_FAILURE))"
proof -
  let ?line = "''foo '' @ CHR 0x22 # ''bar''"
  let ?s = "\<lparr>tokens = [''foo'', ''bar''], token = [], in_quotes = True, buffer_size = 32\<rparr>"
  let ?y = "\<lparr>pipe_result = None, fork_result = (\<lambda>n. None), execvp_result = (\<lambda>f a. None),
       chdir_result = (\<lambda>d. False)\<rparr>"
  note t = split_line_unterminated_quote[of ?line ?s ?y "''x''" "''a b''" "''foo''" "[''foo'']" "CHR '' ''"]
  have h1: "split_loop ?line init_state = Inr ?s"
    by code_simp
  have h2: "in_quotes ?s"
    by simp
  have h3: "odd (count_list (takeWhile (\<lambda>c. c \<noteq> CHR 0x00) ?line) (CHR 0x22))"
    by simp
  have h4: "list_all plain ''x'' \<and> CHR 0x22 \<notin> set ''a b'' \<and> CHR 0x00 \<notin> set ''a b'' \<and>
      length (''x'' @ ''a b'') < MAX_WORD_SIZE"
    by (simp add: plain_def is_delimiter_def MAX_WORD_SIZE_def)
  have h5: "split_line ''foo'' = Inr [''foo''] \<and> CHR 0x00 \<notin> set ''foo'' \<and> is_delimiter (CHR '' '')"
    by (simp add: is_delimiter_def) code_simp
  have c1: "split_line ?line =
        Inl (Raised (Abort (''jshell: Error occurred: Parsing ended unexpectedly.'' @ [CHR 0x0A])
                           EXIT_FAILURE)) \<and>
      jshell_step ?y ?line =
        Inr (Exits EXIT_FAILURE,
             [Stderr (''jshell: Error occurred: Parsing ended unexpectedly.'' @ [CHR 0x0A])])"
    using t h1 h2 by blast
  have c2: "split_line (''x'' @ CHR 0x22 # ''a b'') =
        Inl (Raised (Abort (''jshell: Error occurred: Parsing ended unexpectedly.'' @ [CHR 0x0A])
                           EXIT_FAILURE))"
    using t h4 by blast
  have c3: "split_line (''foo'' @ CHR '' '' # ''x'' @ CHR 0x22 # ''a b'') =
        Inl (Raised (Abort (''jshell: Error occurred: Parsing ended unexpectedly.'' @ [CHR 0x0A])
                           EXIT_FAILURE))"
    using t h4 h5 by blast
  show ?thesis
    using h1 h3 h5 c1 c2 c3 by blast
qed

text \<open>
  Claim C10.  \<^verbatim>\<open>token[j]\<close> is written without a test of \<^verbatim>\<open>j\<close>.  Inside the loop the
  only block that can be overrun is the word buffer, at the index \<^verbatim>\<open>MAX_WORD_SIZE\<close> and
  with \<^verbatim>\<open>MAX_WORD_SIZE\<close> characters of one word in it; so the writes into the word buffer
  are in bounds as long as no word reaches that length, every token returned has at
  most 99 characters, and a word of 100 characters or more does overrun the buffer.
  The claim that all writes of \<^verbatim>\<open>split_line\<close> are then in bounds fails for the array of
  pointers: the terminator \<^verbatim>\<open>tokens[current_token] = NULL\<close> is written without the
  growth test.  When the loop is left outside quotes with \<^verbatim>\<open>current_token = buffer_size\<close>
  the write is past the array; this happens whenever the number of tokens is a multiple
  of \<^verbatim>\<open>TOKEN_BUFFER_SIZE\<close> and the line ends with its last token, as for 32 words of one
  letter.
\<close>
theorem split_line_buffer_writes:
  "(split_loop line init_state = Inl (Overrun b n, s) \<longrightarrow>
      b = Word_buffer \<and> n = MAX_WORD_SIZE \<and> length (token s) = MAX_WORD_SIZE) \<and>
   (split_line line = Inr toks \<longrightarrow> list_all (\<lambda>t. length t < MAX_WORD_SIZE) toks) \<and>
   (list_all plain u \<and> MAX_WORD_SIZE \<le> length u \<longrightarrow>
      split_line u = Inl (Overrun Word_buffer MAX_WORD_SIZE)) \<and>
   (split_loop line init_state = Inr s \<and> \<not> in_quotes s \<and> length (tokens s) = buffer_size s \<longrightarrow>
      split_line line = Inl (Overrun Token_array (buffer_size s))) \<and>
   (split_line a = Inr ta \<and> CHR 0x00 \<notin> set a \<and> is_delimiter d \<and>
    list_all plain v \<and> v \<noteq> [] \<and> length v < MAX_WORD_SIZE \<and>
    Suc (length ta) mod TOKEN_BUFFER_SIZE = 0 \<longrightarrow>
      split_line (a @ d # v) = Inl (Overrun Token_array (Suc (length ta)))) \<and>
   split_line (concat (replicate 31 ''a '') @ ''a'') = Inl (Overrun Token_array 32)"
proof (intro conjI impI)
  assume r: "split_loop line init_state = Inl (Overrun b n, s)"
  show "b = Word_buffer" "n = MAX_WORD_SIZE" "length (token s) = MAX_WORD_SIZE"
    using split_loop_Inl[OF init_state_fits(1,3) r] by simp_all
next
  assume r: "split_line line = Inr toks"
  have "\<exists>s. words_fit s \<and> tokens s = toks"
    using split_line_invariant[OF split_loop_words_fit init_state_fits(2) r] by blast
  then show "list_all (\<lambda>t. length t < MAX_WORD_SIZE) toks"
    by (auto simp: words_fit_def)
next
  assume "list_all plain u \<and> MAX_WORD_SIZE \<le> length u"
  then show "split_line u = Inl (Overrun Word_buffer MAX_WORD_SIZE)"
    by (simp add: split_line_long_word)
next
  assume "split_loop line init_state = Inr s \<and> \<not> in_quotes s \<and> length (tokens s) = buffer_size s"
  then show "split_line line = Inl (Overrun Token_array (buffer_size s))"
    by (simp add: split_line_def)
next
  assume "split_line a = Inr ta \<and> CHR 0x00 \<notin> set a \<and> is_delimiter d \<and>
    list_all plain v \<and> v \<noteq> [] \<and> length v < MAX_WORD_SIZE \<and>
    Suc (length ta) mod TOKEN_BUFFER_SIZE = 0"
  then show "split_line (a @ d # v) = Inl (Overrun Token_array (Suc (length ta)))"
    by (simp add: split_line_full_array)
next
  show "split_line (concat (replicate 31 ''a '') @ ''a'') = Inl (Overrun Token_array 32)"
    by code_simp
qed

theorem split_line_buffer_writes_witness:
  "split_line (replicate 100 (CHR ''a'')) = Inl (Overrun Word_buffer MAX_WORD_SIZE) \<and>
   split_loop (replicate 100 (CHR ''a'')) init_state =
     Inl (Overrun Word_buffer 100,
          \<lparr>tokens = [], token = replicate 100 (CHR ''a''), in_quotes = False, buffer_size = 32\<rparr>) \<and>
   split_line (replicate 99 (CHR ''a'')) = Inr [replicate 99 (CHR ''a'')] \<and>
   split_line (concat (replicate 30 ''a '') @ ''a'') = Inr (replicate 31 ''a'') \<and>
   split_line ((concat (replicate 30 ''a '') @ ''a'') @ CHR '' '' # ''b'') =
     Inl (Overrun Token_array 32)"
proof -
  let ?long = "replicate 100 (CHR ''a'')"
  let ?s = "\<lparr>tokens = [], token = replicate 100 (CHR ''a''), in_quotes = False, buffer_size = 32\<rparr>"
  let ?a = "concat (replicate 30 ''a '') @ ''a''"
  note t1 = split_line_buffer_writes[of ?long Word_buffer 100 ?s "[]" ?long ?a "replicate 31 ''a''"
      "CHR '' ''" "''b''"]
  note t2 = split_line_buffer_writes[of "replicate 99 (CHR ''a'')" Word_buffer 100 ?s
      "[replicate 99 (CHR ''a'')]" ?long ?a "replicate 31 ''a''" "CHR '' ''" "''b''"]
  have h1: "list_all plain ?long \<and> MAX_WORD_SIZE \<le> length ?long"
    by (simp add: list_all_iff plain_def is_delimiter_def MAX_WORD_SIZE_def)
  have h2: "split_loop ?long init_state = Inl (Overrun Word_buffer 100, ?s)"
    by code_simp
  have h3: "split_line (replicate 99 (CHR ''a'')) = Inr [replicate 99 (CHR ''a'')]"
    by code_simp
  have h4: "split_line ?a = Inr (replicate 31 ''a'')"
    by code_simp
  have h5: "CHR 0x00 \<notin> set ?a \<and> is_delimiter (CHR '' '') \<and> list_all plain ''b'' \<and> ''b'' \<noteq> [] \<and>
      length ''b'' < MAX_WORD_SIZE \<and> Suc (length (replicate 31 ''a'')) mod TOKEN_BUFFER_SIZE = 0"
    by (auto simp: plain_def is_delimiter_def MAX_WORD_SIZE_def TOKEN_BUFFER_SIZE_def)
  have c1: "split_line ?long = Inl (Overrun Word_buffer MAX_WORD_SIZE)"
    using t1 h1 by blast
  have c2: "Word_buffer = Word_buffer \<and> 100 = MAX_WORD_SIZE \<and> length (token ?s) = MAX_WORD_SIZE"
    using t1 h2 by blast
  have c3: "list_all (\<lambda>t. length t < MAX_WORD_SIZE) [replicate 99 (CHR ''a'')]"
    using t2 h3 by blast
  have c4: "split_line (?a @ CHR '' '' # ''b'') = Inl (Overrun Token_array (Suc (length (replicate 31 ''a''))))"
    using t1 h4 h5 by blast
  show ?thesis
    using c1 h2 h3 h4 c4 by simp
qed

section \<open>The executor\<close>

subsection \<open>Commands without a pipeline\<close>

lemma exec_scan_none:
  "list_all (\<lambda>a. \<not> starts_pipe a) rest \<Longrightarrow> exec_scan y args rest i = None"
  by (induction rest arbitrary: i) simp_all

lemma exec_scan_skip:
  "list_all (\<lambda>a. \<not> starts_pipe a) pre \<Longrightarrow>
   exec_scan y args (pre @ rest) i = exec_scan y args rest (i + length pre)"
  by (induction pre arbitrary: i) simp_all

lemma jshell_exec_no_pipe:
  "list_all (\<lambda>a. \<not> starts_pipe a) (a0 # others) \<Longrightarrow>
   jshell_exec y (a0 # others) =
     (case find (\<lambda>b. a0 = fst b) builtins of
        Some b \<Rightarrow> snd b y (a0 # others)
      | None \<Rightarrow> jshell_run y (c_array (a0 # others)))"
  by (simp add: jshell_exec_def exec_scan_none del: exec_scan.simps)

lemma find_builtin_none: "a0 \<notin> set builtin_names \<Longrightarrow> find (\<lambda>b. a0 = fst b) builtins = None"
  by (auto simp: builtin_names_def builtins_def)

lemma wait_child_stops:
  "list_all (\<lambda>st. \<not> terminated st) stops \<Longrightarrow> terminated final \<Longrightarrow>
   wait_child pid (stops @ final # rest) = (map (Waitpid pid) (stops @ [final]), True)"
  by (induction stops) (auto simp: terminated_def)

lemma wait_child_never:
  "list_all (\<lambda>st. \<not> terminated st) sts \<Longrightarrow> wait_child pid sts = (map (Waitpid pid) sts, False)"
  by (induction sts) (auto simp: terminated_def)

lemma slot_at_c_array_0: "slot_at (c_array (a0 # others)) 0 = Tok a0"
  by (simp add: slot_at_def c_array_def)

text \<open>
  Claim C8, as amended.  For a non-empty token sequence in which no token begins with
  the pipe character and whose first token is no builtin name, \<^verbatim>\<open>jshell_exec\<close> is
  \<^verbatim>\<open>jshell_run\<close>: one \<^verbatim>\<open>fork\<close>, whose child calls \<^verbatim>\<open>execvp\<close> with the tokens as its
  argument vector.  When the child, after any number of stops, exits or is killed, the
  parent has waited for it and returns \<^verbatim>\<open>JSHELL_SUCCESS\<close> whatever the status.  A
  failed \<^verbatim>\<open>fork\<close> is reported by the parent and a failed \<^verbatim>\<open>execvp\<close> by the child,
  which exits with \<^verbatim>\<open>EXIT_FAILURE\<close>; the shell returns \<^verbatim>\<open>JSHELL_SUCCESS\<close> in both cases.
  While the child neither exits nor is killed the parent keeps waiting: a child that
  never terminates blocks the shell.
\<close>
theorem jshell_exec_external:
  "list_all (\<lambda>a. \<not> starts_pipe a) (a0 # others) \<and> a0 \<notin> set builtin_names \<longrightarrow>
     jshell_exec y (a0 # others) = jshell_run y (c_array (a0 # others)) \<and>
     (fork_result y 0 = None \<longrightarrow>
        jshell_exec y (a0 # others) = (Returns JSHELL_SUCCESS, [ForkFailed, Perror ''jshell''])) \<and>
     (fork_result y 0 = Some pid \<and>
      execvp_result y (Tok a0) (c_array (a0 # others)) = Some (stops @ final # rest) \<and>
      list_all (\<lambda>st. \<not> terminated st) stops \<and> terminated final \<longrightarrow>
        jshell_exec y (a0 # others) =
          (Returns JSHELL_SUCCESS,
           Fork pid [Execvp (Tok a0) (c_array (a0 # others))] #
           map (Waitpid pid) (stops @ [final]))) \<and>
     (fork_result y 0 = Some pid \<and> execvp_result y (Tok a0) (c_array (a0 # others)) = None \<longrightarrow>
        jshell_exec y (a0 # others) =
          (Returns JSHELL_SUCCESS,
           [Fork pid [Execvp (Tok a0) (c_array (a0 # others)),
                      Perror (''jshell('' @ [CHR 0x22] @ a0 @ [CHR 0x22] @ '')''),
                      Exit EXIT_FAILURE],
            Waitpid pid (Exited EXIT_FAILURE)])) \<and>
     (fork_result y 0 = Some pid \<and>
      execvp_result y (Tok a0) (c_array (a0 # others)) = Some sts \<and>
      list_all (\<lambda>st. \<not> terminated st) sts \<longrightarrow>
        jshell_exec y (a0 # others) =
          (Blocks, Fork pid [Execvp (Tok a0) (c_array (a0 # others))] # map (Waitpid pid) sts))"
proof (intro impI)
  assume h: "list_all (\<lambda>a. \<not> starts_pipe a) (a0 # others) \<and> a0 \<notin> set builtin_names"
  have run: "jshell_exec y (a0 # others) = jshell_run y (c_array (a0 # others))"
    using h jshell_exec_no_pipe[of a0 others y] by (simp add: find_builtin_none)
  have p1: "jshell_run y (c_array (a0 # others)) = (Returns JSHELL_SUCCESS, [ForkFailed, Perror ''jshell''])"
    if "fork_result y 0 = None"
    using that by (simp add: jshell_run_def)
  have p2: "jshell_run y (c_array (a0 # others)) =
          (Returns JSHELL_SUCCESS,
           Fork pid [Execvp (Tok a0) (c_array (a0 # others))] #
           map (Waitpid pid) (stops @ [final]))"
    if "fork_result y 0 = Some pid \<and>
      execvp_result y (Tok a0) (c_array (a0 # others)) = Some (stops @ final # rest) \<and>
      list_all (\<lambda>st. \<not> terminated st) stops \<and> terminated final"
    using that
    by (simp add: jshell_run_def slot_at_c_array_0 child_statuses_def run_child_def wait_child_stops)
  have p3: "jshell_run y (c_array (a0 # others)) =
          (Returns JSHELL_SUCCESS,
           [Fork pid [Execvp (Tok a0) (c_array (a0 # others)),
                      Perror (''jshell('' @ [CHR 0x22] @ a0 @ [CHR 0x22] @ '')''),
                      Exit EXIT_FAILURE],
            Waitpid pid (Exited EXIT_FAILURE)])"
    if "fork_result y 0 = Some pid \<and> execvp_result y (Tok a0) (c_array (a0 # others)) = None"
    using that
    by (simp add: jshell_run_def slot_at_c_array_0 child_statuses_def run_child_def slot_str_def
        WIFEXITED_def)
  have p4: "jshell_run y (c_array (a0 # others)) =
          (Blocks, Fork pid [Execvp (Tok a0) (c_array (a0 # others))] # map (Waitpid pid) sts)"
    if "fork_result y 0 = Some pid \<and>
      execvp_result y (Tok a0) (c_array (a0 # others)) = Some sts \<and>
      list_all (\<lambda>st. \<not> terminated st) sts"
    using that
    by (simp add: jshell_run_def slot_at_c_array_0 child_statuses_def run_child_def wait_child_never)
  show "jshell_exec y (a0 # others) = jshell_run y (c_array (a0 # others)) \<and>
     (fork_result y 0 = None \<longrightarrow>
        jshell_exec y (a0 # others) = (Returns JSHELL_SUCCESS, [ForkFailed, Perror ''jshell''])) \<and>
     (fork_result y 0 = Some pid \<and>
      execvp_result y (Tok a0) (c_array (a0 # others)) = Some (stops @ final # rest) \<and>
      list_all (\<lambda>st. \<not> terminated st) stops \<and> terminated final \<longrightarrow>
        jshell_exec y (a0 # others) =
          (Returns JSHELL_SUCCESS,
           Fork pid [Execvp (Tok a0) (c_array (a0 # others))] #
           map (Waitpid pid) (stops @ [final]))) \<and>
     (fork_result y 0 = Some pid \<and> execvp_result y (Tok a0) (c_array (a0 # others)) = None \<longrightarrow>
        jshell_exec y (a0 # others) =
          (Returns JSHELL_SUCCESS,
           [Fork pid [Execvp (Tok a0) (c_array (a0 # others)),
                      Perror (''jshell('' @ [CHR 0x22] @ a0 @ [CHR 0x22] @ '')''),
                      Exit EXIT_FAILURE],
            Waitpid pid (Exited EXIT_FAILURE)])) \<and>
     (fork_result y 0 = Some pid \<and>
      execvp_result y (Tok a0) (c_array (a0 # others)) = Some sts \<and>
      list_all (\<lambda>st. \<not> terminated st) sts \<longrightarrow>
        jshell_exec y (a0 # others) =
          (Blocks, Fork pid [Execvp (Tok a0) (c_array (a0 # others))] # map (Waitpid pid) sts))"
    unfolding run using p1 p2 p3 p4 by blast
qed


theorem jshell_exec_external_witness:
  "jshell_exec \<lparr>pipe_result = None, fork_result = (\<lambda>n. None), execvp_result = (\<lambda>f a. None),
       chdir_result = (\<lambda>d. False)\<rparr> [''ls'', ''-l''] =
     (Returns JSHELL_SUCCESS, [ForkFailed, Perror ''jshell'']) \<and>
   jshell_exec \<lparr>pipe_result = None, fork_result = (\<lambda>n. Some 7),
       execvp_result = (\<lambda>f a. Some [Stopped 19, Signaled 9, Exited 0]),
       chdir_result = (\<lambda>d. False)\<rparr> [''ls'', ''-l''] =
     (Returns JSHELL_SUCCESS,
      [Fork 7 [Execvp (Tok ''ls'') [Tok ''ls'', Tok ''-l'', Null]],
       Waitpid 7 (Stopped 19), Waitpid 7 (Signaled 9)]) \<and>
   jshell_exec \<lparr>pipe_result = None, fork_result = (\<lambda>n. Some 7), execvp_result = (\<lambda>f a. None),
       chdir_result = (\<lambda>d. False)\<rparr> [''ls'', ''-l''] =
     (Returns JSHELL_SUCCESS,
      [Fork 7 [Execvp (Tok ''ls'') [Tok ''ls'', Tok ''-l'', Null],
               Perror (''jshell('' @ [CHR 0x22] @ ''ls'' @ [CHR 0x22] @ '')''),
               Exit EXIT_FAILURE],
       Waitpid 7 (Exited EXIT_FAILURE)])"
proof -
  let ?y1 = "\<lparr>pipe_result = None, fork_result = (\<lambda>n. None), execvp_result = (\<lambda>f a. None),
       chdir_result = (\<lambda>d. False)\<rparr>"
  let ?y2 = "\<lparr>pipe_result = None, fork_result = (\<lambda>n. Some 7),
       execvp_result = (\<lambda>f a. Some [Stopped 19, Signaled 9, Exited 0]),
       chdir_result = (\<lambda>d. False)\<rparr>"
  let ?y3 = "\<lparr>pipe_result = None, fork_result = (\<lambda>n. Some 7), execvp_result = (\<lambda>f a. None),
       chdir_result = (\<lambda>d. False)\<rparr>"
  have h: "list_all (\<lambda>a. \<not> starts_pipe a) (''ls'' # [''-l'']) \<and> ''ls'' \<notin> set builtin_names"
    by (simp add: starts_pipe_def builtin_names_def)
  have h2: "list_all (\<lambda>st. \<not> terminated st) [Stopped 19] \<and> terminated (Signaled 9)"
    by (simp add: terminated_def WIFEXITED_def WIFSIGNALED_def)
  have c1: "jshell_exec ?y1 (''ls'' # [''-l'']) = (Returns JSHELL_SUCCESS, [ForkFailed, Perror ''jshell''])"
  proof -
    have "fork_result ?y1 0 = None" by simp
    then show ?thesis
      using jshell_exec_external[of "''ls''" "[''-l'']" ?y1] h by blast
  qed
  have c2: "jshell_exec ?y2 (''ls'' # [''-l'']) =
     (Returns JSHELL_SUCCESS,
      Fork 7 [Execvp (Tok ''ls'') (c_array (''ls'' # [''-l'']))] #
      map (Waitpid 7) ([Stopped 19] @ [Signaled 9]))"
  proof -
    have "fork_result ?y2 0 = Some 7 \<and>
        execvp_result ?y2 (Tok ''ls'') (c_array (''ls'' # [''-l''])) =
          Some ([Stopped 19] @ Signaled 9 # [Exited 0])"
      by simp
    then show ?thesis
      using jshell_exec_external[of "''ls''" "[''-l'']" ?y2 7 "[Stopped 19]" "Signaled 9" "[Exited 0]"]
        h h2 by blast
  qed
  have c3: "jshell_exec ?y3 (''ls'' # [''-l'']) =
     (Returns JSHELL_SUCCESS,
      [Fork 7 [Execvp (Tok ''ls'') (c_array (''ls'' # [''-l''])),
               Perror (''jshell('' @ [CHR 0x22] @ ''ls'' @ [CHR 0x22] @ '')''),
               Exit EXIT_FAILURE],
       Waitpid 7 (Exited EXIT_FAILURE)])"
  proof -
    have "fork_result ?y3 0 = Some 7 \<and>
        execvp_result ?y3 (Tok ''ls'') (c_array (''ls'' # [''-l''])) = None"
      by simp
    then show ?thesis
      using jshell_exec_external[of "''ls''" "[''-l'']" ?y3 7] h by blast
  qed
  show ?thesis
    using c1 c2 c3 by (simp add: c_array_def)
qed

theorem jshell_exec_external_counterexample:
  "[''echo'', ''|hi''] \<noteq> [] \<and> ''|'' \<notin> set [''echo'', ''|hi''] \<and>
   hd [''echo'', ''|hi''] \<notin> set builtin_names \<and>
   jshell_exec \<lparr>pipe_result = Some (3, 4), fork_result = (\<lambda>n. Some (7 + n)),
       execvp_result = (\<lambda>f a. Some [Exited 0]), chdir_result = (\<lambda>d. True)\<rparr> [''echo'', ''|hi''] =
     (Returns JSHELL_FAILED, [Stderr (''jshell: Syntax error for '|'.'' @ [CHR 0x0A])]) \<and>
   JSHELL_FAILED \<noteq> JSHELL_SUCCESS"
  by (simp add: jshell_exec_def starts_pipe_def builtin_names_def JSHELL_FAILED_def JSHELL_SUCCESS_def)

subsection \<open>The builtin cd\<close>

lemma find_builtin_cd: "find (\<lambda>b. ''cd'' = fst b) builtins = Some (''cd'', jshell_cd)"
  by (simp add: builtins_def)

lemma starts_pipe_cd: "\<not> starts_pipe ''cd''"
  by (simp add: starts_pipe_def)

text \<open>
  Claim C7.  \<^verbatim>\<open>cd\<close> with no argument calls \<^verbatim>\<open>raise_error\<close>: the diagnostic is printed
  and the shell process ends with \<^verbatim>\<open>EXIT_FAILURE\<close>, also when reached through
  \<^verbatim>\<open>jshell_exec\<close>.  With an argument, a failing \<^verbatim>\<open>chdir\<close> is reported with \<^verbatim>\<open>perror\<close>
  and \<^verbatim>\<open>cd\<close> returns \<^verbatim>\<open>JSHELL_SUCCESS\<close>, as it does when \<^verbatim>\<open>chdir\<close> succeeds.
\<close>
theorem jshell_cd_argument:
  "jshell_cd y [c] =
     (Exits EXIT_FAILURE,
      [Stderr (''jshell: Error occurred: Argument expected for 'cd' command'' @ [CHR 0x0A])]) \<and>
   jshell_exec y [''cd''] =
     (Exits EXIT_FAILURE,
      [Stderr (''jshell: Error occurred: Argument expected for 'cd' command'' @ [CHR 0x0A])]) \<and>
   (\<not> chdir_result y dir \<longrightarrow>
      jshell_cd y (c # dir # others) = (Returns JSHELL_SUCCESS, [Chdir dir False, Perror ''jshell'']) \<and>
      (list_all (\<lambda>a. \<not> starts_pipe a) (dir # others) \<longrightarrow>
         jshell_exec y (''cd'' # dir # others) =
           (Returns JSHELL_SUCCESS, [Chdir dir False, Perror ''jshell'']))) \<and>
   (chdir_result y dir \<longrightarrow>
      jshell_cd y (c # dir # others) = (Returns JSHELL_SUCCESS, [Chdir dir True]))"
proof -
  have p1: "jshell_cd y [c] =
     (Exits EXIT_FAILURE,
      [Stderr (''jshell: Error occurred: Argument expected for 'cd' command'' @ [CHR 0x0A])])" for c
    by (simp add: jshell_cd_def raise_error_def)
  have "jshell_exec y [''cd''] = jshell_cd y [''cd'']"
    using jshell_exec_no_pipe[of "''cd''" "[]" y] by (simp add: find_builtin_cd starts_pipe_cd)
  then have p2: "jshell_exec y [''cd''] =
     (Exits EXIT_FAILURE,
      [Stderr (''jshell: Error occurred: Argument expected for 'cd' command'' @ [CHR 0x0A])])"
    by (simp add: p1)
  have p3: "jshell_cd y (c # dir # others) = (Returns JSHELL_SUCCESS, [Chdir dir False, Perror ''jshell''])"
    if "\<not> chdir_result y dir" for c
    using that by (simp add: jshell_cd_def)
  have p4: "jshell_exec y (''cd'' # dir # others) =
           (Returns JSHELL_SUCCESS, [Chdir dir False, Perror ''jshell''])"
    if "\<not> chdir_result y dir" and "list_all (\<lambda>a. \<not> starts_pipe a) (dir # others)"
  proof -
    have "jshell_exec y (''cd'' # dir # others) = jshell_cd y (''cd'' # dir # others)"
      using jshell_exec_no_pipe[of "''cd''" "dir # others" y] that(2)
      by (simp add: find_builtin_cd starts_pipe_cd)
    then show ?thesis using p3[OF that(1)] by simp
  qed
  have p5: "jshell_cd y (c # dir # others) = (Returns JSHELL_SUCCESS, [Chdir dir True])"
    if "chdir_result y dir"
    using that by (simp add: jshell_cd_def)
  show ?thesis
    using p1 p2 p3 p4 p5 by blast
qed

theorem jshell_cd_argument_witness:
  "\<not> chdir_result \<lparr>pipe_result = None, fork_result = (\<lambda>n. None), execvp_result = (\<lambda>f a. None),
       chdir_result = (\<lambda>d. d = ''/tmp'')\<rparr> ''/nowhere'' \<and>
   jshell_exec \<lparr>pipe_result = None, fork_result = (\<lambda>n. None), execvp_result = (\<lambda>f a. None),
       chdir_result = (\<lambda>d. d = ''/tmp'')\<rparr> [''cd'', ''/nowhere''] =
     (Returns JSHELL_SUCCESS, [Chdir ''/nowhere'' False, Perror ''jshell'']) \<and>
   jshell_cd \<lparr>pipe_result = None, fork_result = (\<lambda>n. None), execvp_result = (\<lambda>f a. None),
       chdir_result = (\<lambda>d. d = ''/tmp'')\<rparr> [''cd'', ''/tmp''] =
     (Returns JSHELL_SUCCESS, [Chdir ''/tmp'' True]) \<and>
   jshell_exec \<lparr>pipe_result = None, fork_result = (\<lambda>n. None), execvp_result = (\<lambda>f a. None),
       chdir_result = (\<lambda>d. d = ''/tmp'')\<rparr> [''cd''] =
     (Exits EXIT_FAILURE,
      [Stderr (''jshell: Error occurred: Argument expected for 'cd' command'' @ [CHR 0x0A])])"
proof -
  let ?y = "\<lparr>pipe_result = None, fork_result = (\<lambda>n. None), execvp_result = (\<lambda>f a. None),
       chdir_result = (\<lambda>d. d = ''/tmp'')\<rparr>"
  note t1 = jshell_cd_argument[of ?y "''cd''" "''/nowhere''" "[]"]
  note t2 = jshell_cd_argument[of ?y "''cd''" "''/tmp''" "[]"]
  have h1: "\<not> chdir_result ?y ''/nowhere''" by simp
  have h2: "list_all (\<lambda>a. \<not> starts_pipe a) (''/nowhere'' # [])" by (simp add: starts_pipe_def)
  have h3: "chdir_result ?y ''/tmp''" by simp
  show ?thesis
    using t1 t2 h1 h2 h3 by blast
qed

subsection \<open>Tokens that begin with the pipe character\<close>

text \<open>
  Claim C4, as amended.  \<^verbatim>\<open>jshell_exec\<close> looks at the first character of each token.
  When no token begins with the pipe character, tokens that hold it further on
  included, there is neither a diagnostic nor a pipeline: the command is the builtin
  or the external program.  The first token that begins with the pipe character gives
  the syntax diagnostic and \<^verbatim>\<open>JSHELL_FAILED\<close> when it is longer than one character or is
  the first token, the diagnostic for a missing right command when it is the last
  token, and \<^verbatim>\<open>jshell_pipe\<close> otherwise.
\<close>
theorem jshell_exec_pipe_tokens:
  "(list_all (\<lambda>a. \<not> starts_pipe a) (a0 # others) \<longrightarrow>
      jshell_exec y (a0 # others) =
        (case find (\<lambda>b. a0 = fst b) builtins of
           Some b \<Rightarrow> snd b y (a0 # others)
         | None \<Rightarrow> jshell_run y (c_array (a0 # others)))) \<and>
   (list_all (\<lambda>a. \<not> starts_pipe a) pre \<and> starts_pipe a \<and> (1 < length a \<or> pre = []) \<longrightarrow>
      jshell_exec y (pre @ a # post) =
        (Returns JSHELL_FAILED, [Stderr (''jshell: Syntax error for '|'.'' @ [CHR 0x0A])])) \<and>
   (list_all (\<lambda>a. \<not> starts_pipe a) pre \<and> pre \<noteq> [] \<longrightarrow>
      jshell_exec y (pre @ [''|'']) =
        (Returns JSHELL_FAILED,
         [Stderr (''jshell: Right command expected for piping.'' @ [CHR 0x0A])])) \<and>
   (list_all (\<lambda>a. \<not> starts_pipe a) pre \<and> pre \<noteq> [] \<and> post \<noteq> [] \<longrightarrow>
      jshell_exec y (pre @ ''|'' # post) = jshell_pipe y (pre @ ''|'' # post))"
proof (intro conjI impI)
  assume "list_all (\<lambda>a. \<not> starts_pipe a) (a0 # others)"
  then show "jshell_exec y (a0 # others) =
        (case find (\<lambda>b. a0 = fst b) builtins of
           Some b \<Rightarrow> snd b y (a0 # others)
         | None \<Rightarrow> jshell_run y (c_array (a0 # others)))"
    by (rule jshell_exec_no_pipe)
next
  assume h: "list_all (\<lambda>a. \<not> starts_pipe a) pre \<and> starts_pipe a \<and> (1 < length a \<or> pre = [])"
  then have "exec_scan y (pre @ a # post) (pre @ a # post) 0 =
      Some (Returns JSHELL_FAILED, [Stderr (''jshell: Syntax error for '|'.'' @ [CHR 0x0A])])"
    by (auto simp: exec_scan_skip)
  then show "jshell_exec y (pre @ a # post) =
        (Returns JSHELL_FAILED, [Stderr (''jshell: Syntax error for '|'.'' @ [CHR 0x0A])])"
    by (cases pre) (simp_all add: jshell_exec_def del: exec_scan.simps)
next
  assume h: "list_all (\<lambda>a. \<not> starts_pipe a) pre \<and> pre \<noteq> []"
  then have "exec_scan y (pre @ [''|'']) (pre @ [''|'']) 0 =
      Some (Returns JSHELL_FAILED,
         [Stderr (''jshell: Right command expected for piping.'' @ [CHR 0x0A])])"
    by (simp add: exec_scan_skip starts_pipe_def)
  then show "jshell_exec y (pre @ [''|'']) =
        (Returns JSHELL_FAILED,
         [Stderr (''jshell: Right command expected for piping.'' @ [CHR 0x0A])])"
    using h by (cases pre) (simp_all add: jshell_exec_def del: exec_scan.simps)
next
  assume h: "list_all (\<lambda>a. \<not> starts_pipe a) pre \<and> pre \<noteq> [] \<and> post \<noteq> []"
  then have "exec_scan y (pre @ ''|'' # post) (pre @ ''|'' # post) 0 =
      Some (jshell_pipe y (pre @ ''|'' # post))"
    by (simp add: exec_scan_skip starts_pipe_def)
  then show "jshell_exec y (pre @ ''|'' # post) = jshell_pipe y (pre @ ''|'' # post)"
    using h by (cases pre) (simp_all add: jshell_exec_def del: exec_scan.simps)
qed


theorem jshell_exec_pipe_tokens_witness:
  "jshell_exec \<lparr>pipe_result = None, fork_result = (\<lambda>n. None), execvp_result = (\<lambda>f a. None),
       chdir_result = (\<lambda>d. False)\<rparr> [''echo'', ''a|b''] =
     (Returns JSHELL_SUCCESS, [ForkFailed, Perror ''jshell'']) \<and>
   jshell_exec \<lparr>pipe_result = None, fork_result = (\<lambda>n. None), execvp_result = (\<lambda>f a. None),
       chdir_result = (\<lambda>d. False)\<rparr> ([''ls''] @ ''|wc'' # [''-l'']) =
     (Returns JSHELL_FAILED, [Stderr (''jshell: Syntax error for '|'.'' @ [CHR 0x0A])]) \<and>
   jshell_exec \<lparr>pipe_result = None, fork_result = (\<lambda>n. None), execvp_result = (\<lambda>f a. None),
       chdir_result = (\<lambda>d. False)\<rparr> ([''foo''] @ [''|'']) =
     (Returns JSHELL_FAILED,
      [Stderr (''jshell: Right command expected for piping.'' @ [CHR 0x0A])]) \<and>
   jshell_exec \<lparr>pipe_result = None, fork_result = (\<lambda>n. None), execvp_result = (\<lambda>f a. None),
       chdir_result = (\<lambda>d. False)\<rparr> ([''ls''] @ ''|'' # [''wc'']) =
     (Returns JSHELL_FAILED,
      [Pipe None, Stderr (''jshell: Pipe could not be initialized.'' @ [CHR 0x0A])])"
proof -
  let ?y = "\<lparr>pipe_result = None, fork_result = (\<lambda>n. None), execvp_result = (\<lambda>f a. None),
       chdir_result = (\<lambda>d. False)\<rparr>"
  note t = jshell_exec_pipe_tokens[of "''echo''" "[''a|b'']" ?y "[''ls'']" "''|wc''" "[''-l'']"]
  note t' = jshell_exec_pipe_tokens[of "''echo''" "[''a|b'']" ?y "[''ls'']" "''|wc''" "[''wc'']"]
  have h1: "list_all (\<lambda>a. \<not> starts_pipe a) (''echo'' # [''a|b''])"
    by (simp add: starts_pipe_def)
  have h2: "list_all (\<lambda>a. \<not> starts_pipe a) [''ls''] \<and> starts_pipe ''|wc'' \<and>
      (1 < length ''|wc'' \<or> [''ls''] = [])"
    by (simp add: starts_pipe_def)
  have h3: "list_all (\<lambda>a. \<not> starts_pipe a) [''foo''] \<and> [''foo''] \<noteq> []"
    by (simp add: starts_pipe_def)
  have h4: "list_all (\<lambda>a. \<not> starts_pipe a) [''ls''] \<and> [''ls''] \<noteq> [] \<and> [''wc''] \<noteq> []"
    by (simp add: starts_pipe_def)
  have e1: "(case find (\<lambda>b. ''echo'' = fst b) builtins of
           Some b \<Rightarrow> snd b ?y (''echo'' # [''a|b''])
         | None \<Rightarrow> jshell_run ?y (c_array (''echo'' # [''a|b'']))) =
      (Returns JSHELL_SUCCESS, [ForkFailed, Perror ''jshell''])"
    by (simp add: builtins_def jshell_run_def)
  have e4: "jshell_pipe ?y ([''ls''] @ ''|'' # [''wc'']) =
      (Returns JSHELL_FAILED,
       [Pipe None, Stderr (''jshell: Pipe could not be initialized.'' @ [CHR 0x0A])])"
    by (simp add: jshell_pipe_def pipe_split_def starts_pipe_def jshell_exec_pipe_def)
  have c1: "jshell_exec ?y (''echo'' # [''a|b'']) =
      (Returns JSHELL_SUCCESS, [ForkFailed, Perror ''jshell''])"
    using t h1 e1 by simp
  have c2: "jshell_exec ?y ([''ls''] @ ''|wc'' # [''-l'']) =
     (Returns JSHELL_FAILED, [Stderr (''jshell: Syntax error for '|'.'' @ [CHR 0x0A])])"
    using t h2 by blast
  have c3: "jshell_exec ?y ([''foo''] @ [''|'']) =
     (Returns JSHELL_FAILED,
      [Stderr (''jshell: Right command expected for piping.'' @ [CHR 0x0A])])"
    using jshell_exec_pipe_tokens[of "''echo''" "[''a|b'']" ?y "[''foo'']" "''|wc''" "[''-l'']"] h3
    by blast
  have c4: "jshell_exec ?y ([''ls''] @ ''|'' # [''wc'']) =
     (Returns JSHELL_FAILED,
      [Pipe None, Stderr (''jshell: Pipe could not be initialized.'' @ [CHR 0x0A])])"
    using t' h4 e4 by simp
  show ?thesis
    using c1 c2 c3 c4 by simp
qed

theorem jshell_exec_pipe_tokens_counterexample:
  "''|x'' \<noteq> ''|'' \<and> 1 < length ''|x'' \<and> ''|'' \<notin> set [''ls'', ''|x''] \<and>
   jshell_exec \<lparr>pipe_result = Some (3, 4), fork_result = (\<lambda>n. Some (7 + n)),
       execvp_result = (\<lambda>f a. Some [Exited 0]), chdir_result = (\<lambda>d. True)\<rparr> [''ls'', ''|x''] =
     (Returns JSHELL_FAILED, [Stderr (''jshell: Syntax error for '|'.'' @ [CHR 0x0A])])"
  by (simp add: jshell_exec_def starts_pipe_def)

subsection \<open>The descriptors of the parent of a pipeline\<close>

lemma wait_child_ops:
  "list_all is_waitpid (fst (wait_child pid sts))"
  by (induction sts) (auto simp: is_waitpid_def split: prod.splits)

lemma is_waitpid_not_close: "is_waitpid x \<Longrightarrow> \<not> is_close x"
  by (cases x) (simp_all add: is_waitpid_def is_close_def)

lemma fds_after_waits: "list_all is_waitpid ops \<Longrightarrow> fds_after ops fds = fds"
proof (induction ops)
  case Nil
  then show ?case by simp
next
  case (Cons x ops)
  then show ?case by (cases x) (simp_all add: is_waitpid_def)
qed

lemma jshell_exec_pipe_spawned:
  assumes "pipe_result y = Some (rd, wr)" "fork_result y 0 = Some p1" "fork_result y 1 = Some p2"
  shows "\<exists>waits. list_all is_waitpid waits \<and>
     snd (jshell_exec_pipe y left_args right_args) =
       [Pipe (Some (rd, wr)), Fork p1 (pipe_child y rd wr STDOUT_FILENO left_args),
        Fork p2 (pipe_child y wr rd STDIN_FILENO right_args)] @ waits"
proof -
  obtain ops1 done1 where w1:
    "wait_child p1 (child_statuses y (slot_at left_args 0) left_args) = (ops1, done1)"
    by (cases "wait_child p1 (child_statuses y (slot_at left_args 0) left_args)")
  obtain ops2 done2 where w2:
    "wait_child p2 (child_statuses y (slot_at right_args 0) right_args) = (ops2, done2)"
    by (cases "wait_child p2 (child_statuses y (slot_at right_args 0) right_args)")
  have a1: "list_all is_waitpid ops1"
    using wait_child_ops[of p1 "child_statuses y (slot_at left_args 0) left_args"] w1 by simp
  have a2: "list_all is_waitpid ops2"
    using wait_child_ops[of p2 "child_statuses y (slot_at right_args 0) right_args"] w2 by simp
  show ?thesis
  proof (cases done1)
    case True
    then have "snd (jshell_exec_pipe y left_args right_args) =
       [Pipe (Some (rd, wr)), Fork p1 (pipe_child y rd wr STDOUT_FILENO left_args),
        Fork p2 (pipe_child y wr rd STDIN_FILENO right_args)] @ (ops1 @ ops2)"
      using assms w1 w2 by (simp add: jshell_exec_pipe_def)
    then show ?thesis using a1 a2 by (intro exI[of _ "ops1 @ ops2"]) simp
  next
    case False
    then have "snd (jshell_exec_pipe y left_args right_args) =
       [Pipe (Some (rd, wr)), Fork p1 (pipe_child y rd wr STDOUT_FILENO left_args),
        Fork p2 (pipe_child y wr rd STDIN_FILENO right_args)] @ ops1"
      using assms w1 by (simp add: jshell_exec_pipe_def)
    then show ?thesis using a1 by (intro exI[of _ ops1]) simp
  qed
qed

text \<open>
  Claim C1.  The claim is that the parent closes both ends of the channel once both
  children are spawned.  In \<^verbatim>\<open>jshell_exec_pipe\<close> it does not: after the \<^verbatim>\<open>pipe\<close> and the
  two \<^verbatim>\<open>fork\<close>s, every call of the parent is a \<^verbatim>\<open>waitpid\<close>; it makes no \<^verbatim>\<open>close\<close>, and
  it still holds both descriptors when it returns or blocks.  Each child closes both
  of its copies.
\<close>
theorem jshell_exec_pipe_parent_keeps_channel:
  "pipe_result y = Some (rd, wr) \<and> fork_result y 0 = Some p1 \<and> fork_result y 1 = Some p2 \<longrightarrow>
     take 3 (snd (jshell_exec_pipe y left_args right_args)) =
       [Pipe (Some (rd, wr)), Fork p1 (pipe_child y rd wr STDOUT_FILENO left_args),
        Fork p2 (pipe_child y wr rd STDIN_FILENO right_args)] \<and>
     list_all is_waitpid (drop 3 (snd (jshell_exec_pipe y left_args right_args))) \<and>
     \<not> list_ex is_close (snd (jshell_exec_pipe y left_args right_args)) \<and>
     fds_after (snd (jshell_exec_pipe y left_args right_args)) [] = [rd, wr] \<and>
     list_ex is_close (pipe_child y rd wr STDOUT_FILENO left_args) \<and>
     list_ex is_close (pipe_child y wr rd STDIN_FILENO right_args)"
proof (intro impI)
  assume h: "pipe_result y = Some (rd, wr) \<and> fork_result y 0 = Some p1 \<and> fork_result y 1 = Some p2"
  then obtain waits where w: "list_all is_waitpid waits"
    "snd (jshell_exec_pipe y left_args right_args) =
       [Pipe (Some (rd, wr)), Fork p1 (pipe_child y rd wr STDOUT_FILENO left_args),
        Fork p2 (pipe_child y wr rd STDIN_FILENO right_args)] @ waits"
    using jshell_exec_pipe_spawned[of y rd wr p1 p2 left_args right_args] by blast
  have nc: "\<not> list_ex is_close waits"
    using w(1) is_waitpid_not_close by (auto simp: list_all_iff list_ex_iff)
  have fd: "fds_after waits [rd, wr] = [rd, wr]"
    using w(1) by (rule fds_after_waits)
  show "take 3 (snd (jshell_exec_pipe y left_args right_args)) =
       [Pipe (Some (rd, wr)), Fork p1 (pipe_child y rd wr STDOUT_FILENO left_args),
        Fork p2 (pipe_child y wr rd STDIN_FILENO right_args)] \<and>
     list_all is_waitpid (drop 3 (snd (jshell_exec_pipe y left_args right_args))) \<and>
     \<not> list_ex is_close (snd (jshell_exec_pipe y left_args right_args)) \<and>
     fds_after (snd (jshell_exec_pipe y left_args right_args)) [] = [rd, wr] \<and>
     list_ex is_close (pipe_child y rd wr STDOUT_FILENO left_args) \<and>
     list_ex is_close (pipe_child y wr rd STDIN_FILENO right_args)"
    unfolding w(2) using w(1) nc fd
    by (simp add: is_close_def pipe_child_def)
qed

theorem jshell_exec_pipe_parent_keeps_channel_witness:
  "jshell_exec_pipe \<lparr>pipe_result = Some (3, 4), fork_result = (\<lambda>n. Some (100 + n)),
       execvp_result = (\<lambda>f a. Some [Exited 0]), chdir_result = (\<lambda>d. True)\<rparr>
     [Tok ''ls'', Null] [Tok ''wc'', Null] =
     (Returns JSHELL_SUCCESS,
      [Pipe (Some (3, 4)),
       Fork 100 [Close 3, Dup2 4 1, Close 4, Execvp (Tok ''ls'') [Tok ''ls'', Null]],
       Fork 101 [Close 4, Dup2 3 0, Close 3, Execvp (Tok ''wc'') [Tok ''wc'', Null]],
       Waitpid 100 (Exited 0), Waitpid 101 (Exited 0)]) \<and>
   \<not> list_ex is_close (snd (jshell_exec_pipe \<lparr>pipe_result = Some (3, 4),
       fork_result = (\<lambda>n. Some (100 + n)), execvp_result = (\<lambda>f a. Some [Exited 0]),
       chdir_result = (\<lambda>d. True)\<rparr> [Tok ''ls'', Null] [Tok ''wc'', Null])) \<and>
   fds_after (snd (jshell_exec_pipe \<lparr>pipe_result = Some (3, 4),
       fork_result = (\<lambda>n. Some (100 + n)), execvp_result = (\<lambda>f a. Some [Exited 0]),
       chdir_result = (\<lambda>d. True)\<rparr> [Tok ''ls'', Null] [Tok ''wc'', Null])) [] = [3, 4]"
proof -
  let ?y = "\<lparr>pipe_result = Some (3, 4), fork_result = (\<lambda>n. Some (100 + n)),
       execvp_result = (\<lambda>f a. Some [Exited 0]), chdir_result = (\<lambda>d. True)\<rparr>"
  have h: "pipe_result ?y = Some (3, 4) \<and> fork_result ?y 0 = Some 100 \<and> fork_result ?y 1 = Some 101"
    by simp
  have e: "jshell_exec_pipe ?y [Tok ''ls'', Null] [Tok ''wc'', Null] =
     (Returns JSHELL_SUCCESS,
      [Pipe (Some (3, 4)),
       Fork 100 [Close 3, Dup2 4 1, Close 4, Execvp (Tok ''ls'') [Tok ''ls'', Null]],
       Fork 101 [Close 4, Dup2 3 0, Close 3, Execvp (Tok ''wc'') [Tok ''wc'', Null]],
       Waitpid 100 (Exited 0), Waitpid 101 (Exited 0)])"
    by (simp add: jshell_exec_pipe_def pipe_child_def child_statuses_def slot_at_def
        STDOUT_FILENO_def STDIN_FILENO_def WIFEXITED_def)
  show ?thesis
    using jshell_exec_pipe_parent_keeps_channel[of ?y 3 4 100 101 "[Tok ''ls'', Null]" "[Tok ''wc'', Null]"]
      h e by blast
qed

subsection \<open>The split of a pipeline\<close>

lemma scan_pipe_plain:
  "list_all (\<lambda>a. \<not> starts_pipe a) r \<Longrightarrow> scan_pipe r i sl = (i + length r, sl)"
  by (induction r arbitrary: i) simp_all

lemma scan_pipe_last:
  "starts_pipe sep \<Longrightarrow> list_all (\<lambda>a. \<not> starts_pipe a) r \<Longrightarrow>
   scan_pipe (xs @ sep # r) i sl = (i + length xs + 1 + length r, i + length xs + 1)"
  by (induction xs arbitrary: i sl) (simp_all add: scan_pipe_plain)

lemma copy_args_left:
  "i + length xs \<le> sl \<Longrightarrow>
   \<exists>L'. length L' = length L \<and>
     copy_args (xs @ rest) i j sl L R = copy_args rest (i + length xs) j sl L' R"
proof (induction xs arbitrary: i L)
  case Nil
  then show ?case by (intro exI[of _ L]) simp
next
  case (Cons a xs)
  show ?case
  proof (cases "starts_pipe a")
    case True
    then show ?thesis using Cons.IH[of "Suc i" L] Cons.prems by simp
  next
    case False
    then show ?thesis using Cons.IH[of "Suc i" "L[i := Tok a]"] Cons.prems by simp
  qed
qed

lemma copy_args_right_plain:
  "list_all (\<lambda>a. \<not> starts_pipe a) r \<Longrightarrow> sl \<le> i \<Longrightarrow> j + length r \<le> length R \<Longrightarrow>
   copy_args r i j sl L R = (L, take j R @ map Tok r @ drop (j + length r) R)"
proof (induction r arbitrary: i j R)
  case Nil
  then show ?case by simp
next
  case (Cons a r)
  have "copy_args (a # r) i j sl L R = copy_args r (Suc i) (Suc j) sl L (R[j := Tok a])"
    using Cons.prems by simp
  also have "\<dots> = (L, take (Suc j) (R[j := Tok a]) @ map Tok r @ drop (Suc j + length r) (R[j := Tok a]))"
    using Cons.prems by (intro Cons.IH) simp_all
  also have "take (Suc j) (R[j := Tok a]) = take j R @ [Tok a]"
    using Cons.prems by (simp add: take_Suc_conv_app_nth)
  also have "drop (Suc j + length r) (R[j := Tok a]) = drop (Suc j + length r) R"
    by simp
  finally show ?case by simp
qed

lemma scan_pipe_args:
  assumes "l \<noteq> []" "starts_pipe sep" "list_all (\<lambda>a. \<not> starts_pipe a) r"
  shows "scan_pipe (drop 1 (l @ sep # r)) 1 0 = (length l + 1 + length r, length l + 1)"
proof -
  obtain a0 l' where l: "l = a0 # l'" using assms(1) by (cases l) auto
  show ?thesis
    using scan_pipe_last[OF assms(2,3), of l' 1 0] by (simp add: l)
qed

lemma drop_replicate_last: "drop n (replicate (Suc n) x) = [x]"
  by (induction n) simp_all

lemma c_array_update: "(map Tok r @ [Uninit])[length r := Null] = c_array r"
  by (simp add: c_array_def list_update_append)

lemma pipe_split_right:
  assumes "l \<noteq> []" "starts_pipe sep" "list_all (\<lambda>a. \<not> starts_pipe a) r"
  shows "\<exists>L'. length L' = length l + 1 \<and>
     copy_args (l @ sep # r) 0 0 (length l + 1)
        (replicate (length l + 1) Uninit) (replicate (length r + 1) Uninit) =
       (L', map Tok r @ [Uninit]) \<and>
     pipe_split (l @ sep # r) = Some (L'[length l := Null], c_array r)"
proof -
  let ?sl = "length l + 1"
  let ?L = "replicate ?sl Uninit"
  let ?R = "replicate (length r + 1) Uninit"
  obtain L' where L': "length L' = length ?L"
    "copy_args (l @ sep # r) 0 0 ?sl ?L ?R = copy_args (sep # r) (0 + length l) 0 ?sl L' ?R"
    using copy_args_left[of 0 l ?sl ?L "sep # r" 0 ?R] by auto
  have "copy_args (sep # r) (0 + length l) 0 ?sl L' ?R = copy_args r (Suc (length l)) 0 ?sl L' ?R"
    using assms(2) by simp
  also have "\<dots> = (L', take 0 ?R @ map Tok r @ drop (0 + length r) ?R)"
    using assms(3) by (intro copy_args_right_plain) simp_all
  also have "drop (0 + length r) ?R = [Uninit]"
    using drop_replicate_last[of "length r" Uninit] by simp
  finally have copy: "copy_args (l @ sep # r) 0 0 ?sl ?L ?R = (L', map Tok r @ [Uninit])"
    using L'(2) by simp
  have "pipe_split (l @ sep # r) = Some (L'[length l := Null], c_array r)"
    unfolding pipe_split_def scan_pipe_args[OF assms]
    using copy by (simp add: c_array_update)
  then show ?thesis using L'(1) copy by auto
qed

lemma c_tokens_c_array: "c_tokens (c_array l) = Some l"
  by (induction l) (simp_all add: c_array_def)

lemma jshell_exec_dispatch:
  assumes "list_all (\<lambda>a. \<not> starts_pipe a) pre" "pre \<noteq> []" "post \<noteq> []"
  shows "jshell_exec y (pre @ ''|'' # post) = jshell_pipe y (pre @ ''|'' # post)"
proof -
  have "exec_scan y (pre @ ''|'' # post) (pre @ ''|'' # post) 0 =
      Some (jshell_pipe y (pre @ ''|'' # post))"
    using assms by (simp add: exec_scan_skip starts_pipe_def)
  then show ?thesis
    using assms(2) by (cases pre) (simp_all add: jshell_exec_def del: exec_scan.simps)
qed

lemma copy_args_left_slots:
  "length P = i \<Longrightarrow> i + length xs \<le> sl \<Longrightarrow>
   copy_args (xs @ rest) i j sl (P @ replicate (length xs + m) Uninit) R =
     copy_args rest (i + length xs) j sl (P @ map left_slot xs @ replicate m Uninit) R"
proof (induction xs arbitrary: i P)
  case Nil
  then show ?case by simp
next
  case (Cons a xs)
  have upd: "(P @ replicate (length (a # xs) + m) Uninit)[i := Tok a] =
      (P @ [Tok a]) @ replicate (length xs + m) Uninit"
    using Cons.prems(1) by (simp add: list_update_append)
  have keep: "P @ replicate (length (a # xs) + m) Uninit =
      (P @ [Uninit]) @ replicate (length xs + m) Uninit"
    by simp
  show ?case
  proof (cases "starts_pipe a")
    case True
    have "copy_args ((a # xs) @ rest) i j sl (P @ replicate (length (a # xs) + m) Uninit) R =
        copy_args (xs @ rest) (Suc i) j sl ((P @ [Uninit]) @ replicate (length xs + m) Uninit) R"
      using True by (simp only: keep append_Cons copy_args.simps if_True)
    also have "\<dots> = copy_args rest (Suc i + length xs) j sl
        ((P @ [Uninit]) @ map left_slot xs @ replicate m Uninit) R"
      using Cons.prems by (intro Cons.IH) simp_all
    finally show ?thesis using left_slot_def[of a] True by simp
  next
    case False
    have "copy_args ((a # xs) @ rest) i j sl (P @ replicate (length (a # xs) + m) Uninit) R =
        copy_args (xs @ rest) (Suc i) j sl ((P @ [Tok a]) @ replicate (length xs + m) Uninit) R"
      using False Cons.prems upd by simp
    also have "\<dots> = copy_args rest (Suc i + length xs) j sl
        ((P @ [Tok a]) @ map left_slot xs @ replicate m Uninit) R"
      using Cons.prems by (intro Cons.IH) simp_all
    finally show ?thesis using left_slot_def[of a] False by simp
  qed
qed

lemma pipe_split_slots:
  assumes "l \<noteq> []" "starts_pipe sep" "list_all (\<lambda>a. \<not> starts_pipe a) r"
  shows "pipe_split (l @ sep # r) = Some (map left_slot l @ [Null], c_array r)"
proof -
  let ?sl = "length l + 1"
  let ?L = "replicate ?sl Uninit"
  let ?R = "replicate (length r + 1) Uninit"
  obtain L' where L': "copy_args (l @ sep # r) 0 0 ?sl ?L ?R = (L', map Tok r @ [Uninit])"
    "pipe_split (l @ sep # r) = Some (L'[length l := Null], c_array r)"
    using pipe_split_right[OF assms] by blast
  have "copy_args (l @ sep # r) 0 0 ?sl ([] @ replicate (length l + 1) Uninit) ?R =
      copy_args (sep # r) (0 + length l) 0 ?sl ([] @ map left_slot l @ replicate 1 Uninit) ?R"
    by (intro copy_args_left_slots) simp_all
  also have "\<dots> = copy_args r (Suc (length l)) 0 ?sl (map left_slot l @ [Uninit]) ?R"
    using assms(2) by simp
  also have "\<dots> = (map left_slot l @ [Uninit], take 0 ?R @ map Tok r @ drop (0 + length r) ?R)"
    using assms(3) by (intro copy_args_right_plain) simp_all
  finally have "L' = map left_slot l @ [Uninit]"
    using L'(1) by simp
  then show ?thesis
    using L'(2) by (simp add: list_update_append)
qed

lemma c_tokens_left_plain:
  "list_all (\<lambda>a. \<not> starts_pipe a) l \<Longrightarrow> map left_slot l @ [Null] = c_array l"
  by (induction l) (simp_all add: c_array_def left_slot_def)

lemma c_tokens_left_hole:
  "list_ex starts_pipe l \<Longrightarrow> c_tokens (map left_slot l @ [Null]) = None"
  by (induction l) (auto simp: left_slot_def)

lemma left_hole:
  "list_ex starts_pipe l \<Longrightarrow> Uninit \<in> set (map left_slot l @ [Null])"
  by (induction l) (auto simp: left_slot_def)

text \<open>
  Claim C2.  Let \<open>sep\<close> be the last token that begins with the pipe character, after
  the tokens \<open>l\<close> (not empty) and before the tokens \<open>r\<close>.  The right array of
  \<^verbatim>\<open>jshell_pipe\<close> is exactly the tokens \<open>r\<close>.  The left array has one slot for each token
  of \<open>l\<close> and the \<^verbatim>\<open>NULL\<close> after them, and the slot of a token holds that token unless
  the token begins with the pipe character: then the slot is never written.  So the
  split is the one the claim states when \<open>sep\<close> is the only such token: left is exactly
  \<open>l\<close>, and left, separator and right together are the original sequence.  With a
  further separator among \<open>l\<close> the claim fails: the left array is not the tokens before
  the last separator, it has an unwritten slot before its \<^verbatim>\<open>NULL\<close>.
\<close>

theorem pipe_split_partition:
  "l \<noteq> [] \<and> starts_pipe sep \<and> list_all (\<lambda>a. \<not> starts_pipe a) r \<longrightarrow>
     pipe_split (l @ sep # r) = Some (map left_slot l @ [Null], c_array r) \<and>
     c_tokens (c_array r) = Some r \<and>
     (list_all (\<lambda>a. \<not> starts_pipe a) l \<longrightarrow>
        pipe_split (l @ sep # r) = Some (c_array l, c_array r) \<and>
        c_tokens (c_array l) = Some l \<and> l @ [sep] @ r = l @ sep # r) \<and>
     (list_ex starts_pipe l \<longrightarrow>
        Uninit \<in> set (map left_slot l @ [Null]) \<and>
        c_tokens (map left_slot l @ [Null]) = None \<and>
        map left_slot l @ [Null] \<noteq> c_array l)"
proof (intro impI)
  assume h: "l \<noteq> [] \<and> starts_pipe sep \<and> list_all (\<lambda>a. \<not> starts_pipe a) r"
  then have p1: "pipe_split (l @ sep # r) = Some (map left_slot l @ [Null], c_array r)"
    by (simp add: pipe_split_slots)
  have p2: "pipe_split (l @ sep # r) = Some (c_array l, c_array r)"
    if "list_all (\<lambda>a. \<not> starts_pipe a) l"
    using p1 c_tokens_left_plain[OF that] by simp
  have p3: "Uninit \<in> set (map left_slot l @ [Null]) \<and>
        c_tokens (map left_slot l @ [Null]) = None \<and>
        map left_slot l @ [Null] \<noteq> c_array l"
    if "list_ex starts_pipe l"
  proof -
    have "c_tokens (map left_slot l @ [Null]) = None"
      using that by (rule c_tokens_left_hole)
    moreover have "c_tokens (c_array l) = Some l"
      by (rule c_tokens_c_array)
    ultimately show ?thesis
      using left_hole[OF that] by auto
  qed
  show "pipe_split (l @ sep # r) = Some (map left_slot l @ [Null], c_array r) \<and>
     c_tokens (c_array r) = Some r \<and>
     (list_all (\<lambda>a. \<not> starts_pipe a) l \<longrightarrow>
        pipe_split (l @ sep # r) = Some (c_array l, c_array r) \<and>
        c_tokens (c_array l) = Some l \<and> l @ [sep] @ r = l @ sep # r) \<and>
     (list_ex starts_pipe l \<longrightarrow>
        Uninit \<in> set (map left_slot l @ [Null]) \<and>
        c_tokens (map left_slot l @ [Null]) = None \<and>
        map left_slot l @ [Null] \<noteq> c_array l)"
    using p1 p2 p3 by (simp add: c_tokens_c_array)
qed

theorem pipe_split_partition_witness:
  "pipe_split ([''ls'', ''-l''] @ ''|'' # [''wc'', ''-l'']) =
     Some ([Tok ''ls'', Tok ''-l'', Null], [Tok ''wc'', Tok ''-l'', Null]) \<and>
   c_tokens [Tok ''ls'', Tok ''-l'', Null] = Some [''ls'', ''-l''] \<and>
   c_tokens [Tok ''wc'', Tok ''-l'', Null] = Some [''wc'', ''-l''] \<and>
   pipe_split ([''a'', ''|'', ''b''] @ ''|'' # [''c'']) =
     Some ([Tok ''a'', Uninit, Tok ''b'', Null], [Tok ''c'', Null]) \<and>
   c_tokens [Tok ''a'', Uninit, Tok ''b'', Null] = None \<and>
   [Tok ''a'', Uninit, Tok ''b'', Null] \<noteq> c_array [''a'', ''|'', ''b''] \<and>
   jshell_exec \<lparr>pipe_result = Some (3, 4), fork_result = (\<lambda>n. Some (100 + n)),
       execvp_result = (\<lambda>f a. Some [Exited 0]), chdir_result = (\<lambda>d. True)\<rparr>
     [''a'', ''|'', ''b'', ''|'', ''c''] =
     (Returns JSHELL_SUCCESS,
      [Pipe (Some (3, 4)),
       Fork 100 [Close 3, Dup2 4 1, Close 4,
                 Execvp (Tok ''a'') [Tok ''a'', Uninit, Tok ''b'', Null]],
       Fork 101 [Close 4, Dup2 3 0, Close 3, Execvp (Tok ''c'') [Tok ''c'', Null]],
       Waitpid 100 (Exited 0), Waitpid 101 (Exited 0)])"
proof -
  have h: "[''ls'', ''-l''] \<noteq> [] \<and> starts_pipe ''|'' \<and> list_all (\<lambda>a. \<not> starts_pipe a) [''wc'', ''-l'']"
    by (simp add: starts_pipe_def)
  have h2: "list_all (\<lambda>a. \<not> starts_pipe a) [''ls'', ''-l'']"
    by (simp add: starts_pipe_def)
  have g: "[''a'', ''|'', ''b''] \<noteq> [] \<and> starts_pipe ''|'' \<and> list_all (\<lambda>a. \<not> starts_pipe a) [''c'']"
    by (simp add: starts_pipe_def)
  have g2: "list_ex starts_pipe [''a'', ''|'', ''b'']"
    by (simp add: starts_pipe_def)
  have c1: "pipe_split ([''ls'', ''-l''] @ ''|'' # [''wc'', ''-l'']) =
      Some (c_array [''ls'', ''-l''], c_array [''wc'', ''-l'']) \<and>
    c_tokens (c_array [''ls'', ''-l'']) = Some [''ls'', ''-l''] \<and>
    c_tokens (c_array [''wc'', ''-l'']) = Some [''wc'', ''-l'']"
    using pipe_split_partition[of "[''ls'', ''-l'']" "''|''" "[''wc'', ''-l'']"] h h2 by blast
  have c2: "pipe_split ([''a'', ''|'', ''b''] @ ''|'' # [''c'']) =
      Some (map left_slot [''a'', ''|'', ''b''] @ [Null], c_array [''c'']) \<and>
    c_tokens (map left_slot [''a'', ''|'', ''b''] @ [Null]) = None \<and>
    map left_slot [''a'', ''|'', ''b''] @ [Null] \<noteq> c_array [''a'', ''|'', ''b'']"
    using pipe_split_partition[of "[''a'', ''|'', ''b'']" "''|''" "[''c'']"] g g2 by blast
  have sl: "map left_slot [''a'', ''|'', ''b''] @ [Null] = [Tok ''a'', Uninit, Tok ''b'', Null]"
    by (simp add: left_slot_def starts_pipe_def)
  have sp: "pipe_split [''a'', ''|'', ''b'', ''|'', ''c''] =
      Some ([Tok ''a'', Uninit, Tok ''b'', Null], [Tok ''c'', Null])"
    using c2 sl by (simp add: c_array_def)
  have ex: "jshell_exec \<lparr>pipe_result = Some (3, 4), fork_result = (\<lambda>n. Some (100 + n)),
       execvp_result = (\<lambda>f a. Some [Exited 0]), chdir_result = (\<lambda>d. True)\<rparr>
     [''a'', ''|'', ''b'', ''|'', ''c''] =
     (Returns JSHELL_SUCCESS,
      [Pipe (Some (3, 4)),
       Fork 100 [Close 3, Dup2 4 1, Close 4,
                 Execvp (Tok ''a'') [Tok ''a'', Uninit, Tok ''b'', Null]],
       Fork 101 [Close 4, Dup2 3 0, Close 3, Execvp (Tok ''c'') [Tok ''c'', Null]],
       Waitpid 100 (Exited 0), Waitpid 101 (Exited 0)])"
    using sp
    by (simp add: jshell_exec_def starts_pipe_def jshell_pipe_def jshell_exec_pipe_def
        pipe_child_def child_statuses_def slot_at_def STDOUT_FILENO_def STDIN_FILENO_def
        WIFEXITED_def)
  show ?thesis
    using c1 c2 sl ex by (simp add: c_array_def)
qed

subsection \<open>A separator in last position\<close>

lemma jshell_exec_right_expected:
  assumes "list_all (\<lambda>a. \<not> starts_pipe a) pre" "pre \<noteq> []"
  shows "jshell_exec y (pre @ [''|'']) =
     (Returns JSHELL_FAILED, [Stderr (''jshell: Right command expected for piping.'' @ [CHR 0x0A])])"
proof -
  have "exec_scan y (pre @ [''|'']) (pre @ [''|'']) 0 =
      Some (Returns JSHELL_FAILED,
         [Stderr (''jshell: Right command expected for piping.'' @ [CHR 0x0A])])"
    using assms by (simp add: exec_scan_skip starts_pipe_def)
  then show ?thesis
    using assms(2) by (cases pre) (simp_all add: jshell_exec_def del: exec_scan.simps)
qed

lemma jshell_exec_pipe_forked:
  assumes "pipe_result y = Some (rd, wr)" "fork_result y 0 = Some p1" "fork_result y 1 = Some p2"
  shows "fst (jshell_exec_pipe y left_args right_args) = Returns JSHELL_SUCCESS \<or>
     fst (jshell_exec_pipe y left_args right_args) = Blocks"
  using assms by (auto simp: jshell_exec_pipe_def Let_def split: prod.splits)

text \<open>
  Claim C3.  When the first token that begins with the pipe character is the last
  token, \<^verbatim>\<open>jshell_exec\<close> prints the diagnostic for a missing right command and returns
  \<^verbatim>\<open>JSHELL_FAILED\<close> without a \<^verbatim>\<open>fork\<close>.  The claim is that this holds for the separator
  that decides the split, which is the last one.  It does not: when a first separator
  \<open>|\<close> passes the checks and the last token begins with the pipe character,
  \<^verbatim>\<open>jshell_pipe\<close> passes its guard with \<^verbatim>\<open>sizeof_right = 1\<close> and \<^verbatim>\<open>jshell_exec_pipe\<close>
  runs with a right array that holds only \<^verbatim>\<open>NULL\<close>; once the channel and both
  children exist the trace has \<^verbatim>\<open>fork\<close>s and the result is not \<^verbatim>\<open>JSHELL_FAILED\<close>.
\<close>
theorem jshell_exec_trailing_separator:
  "(list_all (\<lambda>a. \<not> starts_pipe a) pre \<and> pre \<noteq> [] \<longrightarrow>
      jshell_exec y (pre @ [''|'']) =
        (Returns JSHELL_FAILED,
         [Stderr (''jshell: Right command expected for piping.'' @ [CHR 0x0A])])) \<and>
   (list_all (\<lambda>a. \<not> starts_pipe a) pre \<and> pre \<noteq> [] \<and> starts_pipe sep \<longrightarrow>
      (\<exists>left_args.
         pipe_split (pre @ ''|'' # mid @ [sep]) = Some (left_args, [Null]) \<and>
         jshell_exec y (pre @ ''|'' # mid @ [sep]) = jshell_exec_pipe y left_args [Null]) \<and>
      c_tokens [Null] = Some [] \<and>
      (pipe_result y = Some (rd, wr) \<and> fork_result y 0 = Some p1 \<and> fork_result y 1 = Some p2 \<longrightarrow>
         list_ex is_fork (snd (jshell_exec y (pre @ ''|'' # mid @ [sep]))) \<and>
         (fst (jshell_exec y (pre @ ''|'' # mid @ [sep])) = Returns JSHELL_SUCCESS \<or>
          fst (jshell_exec y (pre @ ''|'' # mid @ [sep])) = Blocks)))"
proof (intro conjI impI)
  assume "list_all (\<lambda>a. \<not> starts_pipe a) pre \<and> pre \<noteq> []"
  then show "jshell_exec y (pre @ [''|'']) =
        (Returns JSHELL_FAILED,
         [Stderr (''jshell: Right command expected for piping.'' @ [CHR 0x0A])])"
    by (simp add: jshell_exec_right_expected)
next
  assume h: "list_all (\<lambda>a. \<not> starts_pipe a) pre \<and> pre \<noteq> [] \<and> starts_pipe sep"
  let ?args = "pre @ ''|'' # mid @ [sep]"
  have d: "jshell_exec y ?args = jshell_pipe y ?args"
    using h jshell_exec_dispatch[of pre "mid @ [sep]" y] by simp
  obtain L' where L': "pipe_split ((pre @ ''|'' # mid) @ sep # []) =
      Some (L'[length (pre @ ''|'' # mid) := Null], c_array [])"
    using h pipe_split_right[of "pre @ ''|'' # mid" sep "[]"] by auto
  then have sp: "pipe_split ?args = Some (L'[length (pre @ ''|'' # mid) := Null], [Null])"
    by (simp add: c_array_def)
  then have e: "jshell_exec y ?args = jshell_exec_pipe y (L'[length (pre @ ''|'' # mid) := Null]) [Null]"
    using d by (simp add: jshell_pipe_def)
  show "\<exists>left_args.
         pipe_split ?args = Some (left_args, [Null]) \<and>
         jshell_exec y ?args = jshell_exec_pipe y left_args [Null]"
    using sp e by blast
  show "c_tokens [Null] = Some []" by simp
  assume f: "pipe_result y = Some (rd, wr) \<and> fork_result y 0 = Some p1 \<and> fork_result y 1 = Some p2"
  then obtain waits where w: "snd (jshell_exec_pipe y (L'[length (pre @ ''|'' # mid) := Null]) [Null]) =
       [Pipe (Some (rd, wr)),
        Fork p1 (pipe_child y rd wr STDOUT_FILENO (L'[length (pre @ ''|'' # mid) := Null])),
        Fork p2 (pipe_child y wr rd STDIN_FILENO [Null])] @ waits"
    using jshell_exec_pipe_spawned[of y rd wr p1 p2 "L'[length (pre @ ''|'' # mid) := Null]" "[Null]"]
    by blast
  show "list_ex is_fork (snd (jshell_exec y ?args))"
    unfolding e w by (simp add: is_fork_def)
  show "fst (jshell_exec y ?args) = Returns JSHELL_SUCCESS \<or> fst (jshell_exec y ?args) = Blocks"
    unfolding e using f jshell_exec_pipe_forked[of y rd wr p1 p2] by blast
qed

theorem jshell_exec_trailing_separator_witness:
  "jshell_exec \<lparr>pipe_result = Some (3, 4), fork_result = (\<lambda>n. Some (100 + n)),
       execvp_result = (\<lambda>f a. case f of Tok t \<Rightarrow> Some [Exited 0] | _ \<Rightarrow> None),
       chdir_result = (\<lambda>d. True)\<rparr> ([''foo''] @ [''|'']) =
     (Returns JSHELL_FAILED,
      [Stderr (''jshell: Right command expected for piping.'' @ [CHR 0x0A])]) \<and>
   jshell_exec \<lparr>pipe_result = Some (3, 4), fork_result = (\<lambda>n. Some (100 + n)),
       execvp_result = (\<lambda>f a. case f of Tok t \<Rightarrow> Some [Exited 0] | _ \<Rightarrow> None),
       chdir_result = (\<lambda>d. True)\<rparr> ([''a''] @ ''|'' # [''b''] @ [''|'']) =
     (Returns JSHELL_SUCCESS,
      [Pipe (Some (3, 4)),
       Fork 100 [Close 3, Dup2 4 1, Close 4,
                 Execvp (Tok ''a'') [Tok ''a'', Uninit, Tok ''b'', Null]],
       Fork 101 [Close 4, Dup2 3 0, Close 3, Execvp Null [Null],
                 Perror (''Failed execution of '' @ [CHR 0x27] @ ''(null)'' @ [CHR 0x27]),
                 Exit EXIT_FAILURE],
       Waitpid 100 (Exited 0), Waitpid 101 (Exited EXIT_FAILURE)]) \<and>
   list_ex is_fork (snd (jshell_exec \<lparr>pipe_result = Some (3, 4),
       fork_result = (\<lambda>n. Some (100 + n)),
       execvp_result = (\<lambda>f a. case f of Tok t \<Rightarrow> Some [Exited 0] | _ \<Rightarrow> None),
       chdir_result = (\<lambda>d. True)\<rparr> ([''a''] @ ''|'' # [''b''] @ [''|''])))"
proof -
  let ?y = "\<lparr>pipe_result = Some (3, 4), fork_result = (\<lambda>n. Some (100 + n)),
       execvp_result = (\<lambda>f a. case f of Tok t \<Rightarrow> Some [Exited 0] | _ \<Rightarrow> None),
       chdir_result = (\<lambda>d. True)\<rparr>"
  note t1 = jshell_exec_trailing_separator[of "[''foo'']" ?y "''|''" "[''b'']" 3 4 100 101]
  note t2 = jshell_exec_trailing_separator[of "[''a'']" ?y "''|''" "[''b'']" 3 4 100 101]
  have h1: "list_all (\<lambda>a. \<not> starts_pipe a) [''foo''] \<and> [''foo''] \<noteq> []"
    by (simp add: starts_pipe_def)
  have h2: "list_all (\<lambda>a. \<not> starts_pipe a) [''a''] \<and> [''a''] \<noteq> [] \<and> starts_pipe ''|''"
    by (simp add: starts_pipe_def)
  have h3: "pipe_result ?y = Some (3, 4) \<and> fork_result ?y 0 = Some 100 \<and> fork_result ?y 1 = Some 101"
    by simp
  have c1: "jshell_exec ?y ([''foo''] @ [''|'']) =
     (Returns JSHELL_FAILED,
      [Stderr (''jshell: Right command expected for piping.'' @ [CHR 0x0A])])"
    using t1 h1 by blast
  have sp: "pipe_split ([''a''] @ ''|'' # [''b''] @ [''|'']) =
      Some ([Tok ''a'', Uninit, Tok ''b'', Null], [Null])"
    by (simp add: pipe_split_def starts_pipe_def)
  have "jshell_exec ?y ([''a''] @ ''|'' # [''b''] @ [''|'']) =
      jshell_exec_pipe ?y [Tok ''a'', Uninit, Tok ''b'', Null] [Null]"
    using t2 h2 sp by auto
  then have c2: "jshell_exec ?y ([''a''] @ ''|'' # [''b''] @ [''|'']) =
     (Returns JSHELL_SUCCESS,
      [Pipe (Some (3, 4)),
       Fork 100 [Close 3, Dup2 4 1, Close 4,
                 Execvp (Tok ''a'') [Tok ''a'', Uninit, Tok ''b'', Null]],
       Fork 101 [Close 4, Dup2 3 0, Close 3, Execvp Null [Null],
                 Perror (''Failed execution of '' @ [CHR 0x27] @ ''(null)'' @ [CHR 0x27]),
                 Exit EXIT_FAILURE],
       Waitpid 100 (Exited 0), Waitpid 101 (Exited EXIT_FAILURE)])"
    by (simp add: jshell_exec_pipe_def pipe_child_def child_statuses_def slot_at_def slot_str_def
        STDOUT_FILENO_def STDIN_FILENO_def WIFEXITED_def)
  have c3: "list_ex is_fork (snd (jshell_exec ?y ([''a''] @ ''|'' # [''b''] @ [''|''])))"
    using t2 h2 h3 by blast
  show ?thesis
    using c1 c2 c3 by blast
qed

end

